theory Spec2Isabelle
  imports Main
begin

section \<open>The package manager of the ATiQ WebContainer\<close>

text \<open>
  This theory embeds the class \<open>PackageManager\<close> of \<open>src/package-manager\<close>: the
  resolver (\<open>resolveDependencies\<close>, \<open>fetchPackageMetadata\<close>, the cache), the virtual
  installer (\<open>createVirtualNodeModules\<close>, \<open>generateIndexJS\<close>), the lockfile generator
  and the facade \<open>install\<close>.

  Conventions of the embedding.
  \<^item> A JavaScript \<open>Map\<close> is an association list in insertion order: setting a key
    that exists replaces the value in place, a new key goes to the end.
  \<^item> A plain object is the list of its own enumerable properties in the order in which
    \<open>Object.keys\<close>, \<open>Object.entries\<close> and \<open>JSON.stringify\<close> visit them: the array
    indices in ascending numeric order, then the other names in the order of their
    creation. The assignment \<open>obj[k] = v\<close> is \<open>Object_assign\<close>; a property read on an
    object whose prototype is \<open>Object.prototype\<close> also finds the members inherited from
    it.
  \<^item> Strings are lists of characters, one \<open>char\<close> for each code unit of the JavaScript
    string; a string is truthy when it is not empty.
  \<^item> \<open>Date.now()\<close> reads a clock: the \<open>n\<close>-th reading is \<open>clock E n\<close>, and the state
    counts the readings taken so far.
  \<^item> The registry is a finite table from package names to the outcome of
    \<open>GET registryUrl/name\<close>; a name that is not in the table answers "Not Found".
  \<^item> Every \<open>throw\<close> is a value \<open>Inl e\<close> of a sum type; what the code catches is
    matched where the code catches it.
\<close>

subsection \<open>Map and object operations\<close>

primrec Map_set :: "('k \<times> 'v) list \<Rightarrow> 'k \<Rightarrow> 'v \<Rightarrow> ('k \<times> 'v) list" where
  "Map_set [] k v = [(k, v)]"
| "Map_set (p # ps) k v = (if fst p = k then (k, v) # ps else p # Map_set ps k v)"

definition Map_get :: "('k \<times> 'v) list \<Rightarrow> 'k \<Rightarrow> 'v option" where
  "Map_get m k = map_of m k"

definition Map_keys :: "('k \<times> 'v) list \<Rightarrow> 'k list" where
  "Map_keys m = map fst m"

text \<open>
  \<open>Object.keys\<close> returns the own enumerable string-keyed properties of its argument.
  A plain object has its entries as properties. A \<open>Map\<close> keeps its entries in an
  internal slot: it has no own enumerable properties, whatever it contains.
\<close>

datatype 'v js_object = PlainObject "(string \<times> 'v) list" | MapObject "(string \<times> 'v) list"

fun Object_keys :: "'v js_object \<Rightarrow> string list" where
  "Object_keys (PlainObject props) = map fst props"
| "Object_keys (MapObject entries) = []"

text \<open>
  An array index is the canonical decimal numeral of an integer from \<open>0\<close> to
  \<open>2^32 - 2 = 4294967294\<close>: digits only, no leading zero.
\<close>

definition is_digit :: "char \<Rightarrow> bool" where
  "is_digit c \<longleftrightarrow> 48 \<le> (of_char c :: nat) \<and> (of_char c :: nat) \<le> 57"

definition read_int :: "string \<Rightarrow> int" where
  "read_int s = foldl (\<lambda>acc c. 10 * acc + (of_char c - 48)) 0 s"

definition array_index :: "string \<Rightarrow> int option" where
  "array_index k =
     (if k \<noteq> [] \<and> list_all is_digit k \<and> (length k = 1 \<or> hd k \<noteq> CHR ''0'')
         \<and> read_int k < 4294967295
      then Some (read_int k) else None)"

text \<open>
  \<open>obj[k] = v\<close> on a plain object. The name \<open>__proto__\<close> is the accessor inherited from
  \<open>Object.prototype\<close>: assigning to it creates no own property. A name that exists keeps
  its place; a new array index goes among the array indices, in numeric order; any other
  new name goes to the end.
\<close>

fun insert_index :: "int \<Rightarrow> string \<Rightarrow> 'v \<Rightarrow> (string \<times> 'v) list \<Rightarrow> (string \<times> 'v) list" where
  "insert_index i k v [] = [(k, v)]"
| "insert_index i k v (p # ps) =
     (case array_index (fst p) of
        Some j \<Rightarrow> if j < i then p # insert_index i k v ps else (k, v) # p # ps
      | None \<Rightarrow> (k, v) # p # ps)"

definition Object_assign :: "(string \<times> 'v) list \<Rightarrow> string \<Rightarrow> 'v \<Rightarrow> (string \<times> 'v) list" where
  "Object_assign props k v =
     (if k = ''__proto__'' then props
      else if k \<in> set (map fst props) then Map_set props k v
      else (case array_index k of
              Some i \<Rightarrow> insert_index i k v props
            | None \<Rightarrow> props @ [(k, v)]))"

text \<open>
  The names that every object inherits from \<open>Object.prototype\<close>. Each of them is bound
  to a function, \<open>__proto__\<close> to \<open>Object.prototype\<close> itself: all these values are truthy.
\<close>

definition Object_prototype_names :: "string list" where
  "Object_prototype_names =
     [''constructor'', ''__defineGetter__'', ''__defineSetter__'', ''hasOwnProperty'',
      ''__lookupGetter__'', ''__lookupSetter__'', ''isPrototypeOf'', ''propertyIsEnumerable'',
      ''toString'', ''valueOf'', ''__proto__'', ''toLocaleString'']"

subsection \<open>Errors\<close>

datatype js_error = JsError (err_name: string) (err_message: string)

definition Error :: "string \<Rightarrow> js_error" where
  "Error msg = JsError ''Error'' msg"

definition TypeError :: "string \<Rightarrow> js_error" where
  "TypeError msg = JsError ''TypeError'' msg"

text \<open>\<open>String(error)\<close>, as \<open>Error.prototype.toString\<close> builds it.\<close>

definition String_of_error :: "js_error \<Rightarrow> string" where
  "String_of_error e =
     (if err_message e = [] then err_name e
      else if err_name e = [] then err_message e
      else err_name e @ '': '' @ err_message e)"

subsection \<open>Registry metadata, resolved packages, cache entries\<close>

type_synonym deps = "(string \<times> string) list"

text \<open>The values that the code hands to \<open>JSON.stringify\<close>.\<close>

datatype json = JUndefined | JNumber nat | JString string | JObject "(string \<times> json) list"

text \<open>
  The registry's answer (section 6 of the specification):
  \<open>{"dist-tags": {latest}, "versions": {version: {dependencies, dist: {tarball}}}}\<close>.
  The answer is taken to have this shape: \<open>latest\<close> and \<open>tarball\<close> are strings,
  \<open>dependencies\<close> is an object from names to version ranges. A field that may be absent
  is an option; \<open>dist_tags_latest\<close> is \<open>metadata['dist-tags']?.latest\<close> and \<open>vi_tarball\<close>
  is \<open>versionInfo.dist?.tarball\<close>.
\<close>

record version_info =
  vi_dependencies :: "deps option"
  vi_tarball :: "string option"

record metadata =
  dist_tags_latest :: "string option"
  versions :: "(string \<times> version_info) list option"

text \<open>
  The object literal built by \<open>resolveDependencies\<close> has the fields \<open>name\<close>, \<open>version\<close>,
  \<open>tarball\<close>, \<open>dependencies\<close> and \<open>resolved\<close>. Its consumers also read \<open>main\<close>,
  \<open>exports\<close> and \<open>integrity\<close>, which are options here: \<open>None\<close> is \<open>undefined\<close>.
\<close>

record package_data =
  pd_name :: string
  pd_version :: string
  pd_tarball :: "string option"
  pd_dependencies :: deps
  pd_resolved :: int
  pd_main :: "string option"
  pd_exports :: "json option"
  pd_integrity :: "string option"

text \<open>
  The one cache holds two kinds of payload (\<open>data: any\<close>): the package objects, under the
  package name, and the UTF-8 bytes of \<open>JSON.stringify(metadata)\<close>, under
  \<open>metadata:name\<close>. The bytes are represented by the metadata they encode, so that
  \<open>JSON.parse(new TextDecoder().decode(bytes))\<close> gives that metadata back.
\<close>

datatype cache_data = PackageObject package_data | JsonBytes metadata

record cache_entry =
  ce_key :: string
  ce_data :: cache_data
  ce_timestamp :: int
  ce_expires :: "int option"

text \<open>
  The outcomes of \<open>fetch(url)\<close> followed by \<open>response.json()\<close>: \<open>fetch\<close> rejects, the
  response is not \<open>ok\<close> (with its \<open>statusText\<close>), the body is not JSON, or the body
  is the metadata.
\<close>

datatype fetch_response =
    NetworkFailure js_error
  | NotOk string
  | BadBody js_error
  | OkJson metadata

subsection \<open>The filesystem collaborator, the environment and the state\<close>

text \<open>
  The calls of \<open>fs.mkdir\<close> and \<open>fs.writeFile\<close> are logged in the state; a file's content
  is the string that \<open>TextEncoder\<close> encodes. What \<open>JSON.parse\<close> returns for
  \<open>package.json\<close> is either falsy (\<open>null\<close>, \<open>false\<close>, \<open>0\<close>, \<open>""\<close>) or a value whose
  properties \<open>dependencies\<close> and \<open>devDependencies\<close> are absent or objects.
\<close>

datatype fs_op = Mkdir string | WriteFile string string

datatype manifest_json =
    Falsy
  | Manifest (mf_dependencies: "deps option") (mf_devDependencies: "deps option")

text \<open>
  The environment of a call: the clock, the registry, what \<open>fs.readFile\<close> and
  \<open>JSON.parse\<close> return, and whether a filesystem call throws, given the calls made
  before it. The state: the cache of the instance, the number of clock readings, the URLs
  fetched and the filesystem calls made.
\<close>

record env =
  clock :: "nat \<Rightarrow> int"
  registry :: "(string \<times> fetch_response) list"
  fs_readFile :: "string \<Rightarrow> js_error + string"
  JSON_parse :: "string \<Rightarrow> js_error + manifest_json"
  fs_fault :: "fs_op list \<Rightarrow> fs_op \<Rightarrow> js_error option"

record world =
  cache :: "(string \<times> cache_entry) list"
  ticks :: nat
  fetched :: "string list"
  fs_ops :: "fs_op list"

definition registryUrl :: string where
  "registryUrl = ''https://registry.npmjs.org''"

definition Date_now :: "env \<Rightarrow> world \<Rightarrow> int \<times> world" where
  "Date_now E w = (clock E (ticks w), w\<lparr>ticks := Suc (ticks w)\<rparr>)"

definition fetch :: "env \<Rightarrow> string \<Rightarrow> world \<Rightarrow> fetch_response \<times> world" where
  "fetch E packageName w =
     ((case map_of (registry E) packageName of
         None \<Rightarrow> NotOk ''Not Found''
       | Some r \<Rightarrow> r),
      w\<lparr>fetched := fetched w @ [registryUrl @ ''/'' @ packageName]\<rparr>)"

subsection \<open>The cache\<close>

definition isCacheValid :: "env \<Rightarrow> cache_entry \<Rightarrow> world \<Rightarrow> bool \<times> world" where
  "isCacheValid E entry w =
     (case ce_expires entry of
        None \<Rightarrow> (True, w)
      | Some e \<Rightarrow>
          if e = 0 then (True, w)
          else (let (now, w') = Date_now E w in (now < e, w')))"

text \<open>
  \<open>cachePackage(key, data)\<close> stores \<open>data.data || data\<close> with \<open>expires: data.expires\<close>:
  the payload \<open>d\<close> and the expiry \<open>ex\<close> are what these two expressions evaluate to at
  the call.
\<close>

definition cachePackage :: "env \<Rightarrow> string \<Rightarrow> cache_data \<Rightarrow> int option \<Rightarrow> world \<Rightarrow> world" where
  "cachePackage E key d ex w =
     (let (now, w') = Date_now E w
      in w'\<lparr>cache := Map_set (cache w') key
             \<lparr>ce_key = key, ce_data = d, ce_timestamp = now, ce_expires = ex\<rparr>\<rparr>)"

text \<open>The lookup \<open>cached && this.isCacheValid(cached)\<close>, shared by both cache reads.\<close>

definition valid_entry :: "env \<Rightarrow> string \<Rightarrow> world \<Rightarrow> cache_entry option \<times> world" where
  "valid_entry E key w =
     (case Map_get (cache w) key of
        None \<Rightarrow> (None, w)
      | Some cached \<Rightarrow>
          (let (valid, w') = isCacheValid E cached w
           in (if valid then Some cached else None, w')))"

text \<open>\<open>JSON.parse(new TextDecoder().decode(data))\<close>: \<open>decode\<close> throws on a plain object.\<close>

fun decode_parse :: "cache_data \<Rightarrow> js_error + metadata" where
  "decode_parse (JsonBytes m) = Inr m"
| "decode_parse (PackageObject p) =
     Inl (TypeError ''The provided value is not of type (ArrayBuffer or ArrayBufferView)'')"

subsection \<open>RegistryClient\<close>

definition cacheKey :: "string \<Rightarrow> string" where
  "cacheKey packageName = ''metadata:'' @ packageName"

definition fetchPackageMetadata :: "env \<Rightarrow> string \<Rightarrow> world \<Rightarrow> (js_error + metadata) \<times> world" where
  "fetchPackageMetadata E packageName w =
     (let (hit, w1) = valid_entry E (cacheKey packageName) w
      in case hit of
           Some cached \<Rightarrow> (decode_parse (ce_data cached), w1)
         | None \<Rightarrow>
             (let (response, w2) = fetch E packageName w1
              in case response of
                   NetworkFailure e \<Rightarrow> (Inl e, w2)
                 | NotOk statusText \<Rightarrow>
                     (Inl (Error (''Failed to fetch package metadata: '' @ statusText)), w2)
                 | BadBody e \<Rightarrow> (Inl e, w2)
                 | OkJson metadata \<Rightarrow>
                     (let (timestamp, w3) = Date_now E w2;
                          (now, w4) = Date_now E w3;
                          w5 = cachePackage E (cacheKey packageName) (JsonBytes metadata)
                                 (Some (now + 5 * 60 * 1000)) w4
                      in (Inr metadata, w5))))"

subsection \<open>DependencyResolver\<close>

datatype step_outcome =
    FromCache cache_data
  | Resolved package_data "string list"
  | Failed js_error

text \<open>
  \<open>versions[version]\<close>: the own property of that name, else the member that the object
  inherits from \<open>Object.prototype\<close>. On an inherited member the properties
  \<open>dependencies\<close> and \<open>dist\<close> are \<open>undefined\<close>.
\<close>

definition versions_get :: "(string \<times> version_info) list \<Rightarrow> string \<Rightarrow> version_info option" where
  "versions_get vs version =
     (case map_of vs version of
        Some versionInfo \<Rightarrow> Some versionInfo
      | None \<Rightarrow>
          if version \<in> set Object_prototype_names
          then Some \<lparr>vi_dependencies = None, vi_tarball = None\<rparr>
          else None)"

text \<open>
  The pure part of the \<open>try\<close> block: \<open>metadata['dist-tags']?.latest || 'latest'\<close>,
  then \<open>metadata.versions?.[version]\<close>, and the \<open>throw\<close> when there is no such version.
\<close>

definition select_version :: "string \<Rightarrow> metadata \<Rightarrow> js_error + (string \<times> version_info)" where
  "select_version pkg metadata =
     (let version = (case dist_tags_latest metadata of
                       None \<Rightarrow> ''latest''
                     | Some l \<Rightarrow> if l = [] then ''latest'' else l)
      in case (case versions metadata of
                 None \<Rightarrow> None
               | Some vs \<Rightarrow> versions_get vs version) of
           None \<Rightarrow> Inl (Error (''Version '' @ version @ '' not found for package '' @ pkg))
         | Some versionInfo \<Rightarrow> Inr (version, versionInfo))"

definition packageDeps :: "version_info \<Rightarrow> deps" where
  "packageDeps versionInfo = (case vi_dependencies versionInfo of None \<Rightarrow> [] | Some d \<Rightarrow> d)"

text \<open>
  The body of the \<open>while\<close> loop for a name that was not visited: the package-level
  cache, then the \<open>try\<close> block, whose \<open>catch\<close> turns every error into \<open>Failed\<close>.
\<close>

definition resolve_step :: "env \<Rightarrow> string \<Rightarrow> world \<Rightarrow> step_outcome \<times> world" where
  "resolve_step E pkg w =
     (let (hit, w1) = valid_entry E pkg w
      in case hit of
           Some cached \<Rightarrow> (FromCache (ce_data cached), w1)
         | None \<Rightarrow>
             (let (fetched_metadata, w2) = fetchPackageMetadata E pkg w1
              in case fetched_metadata of
                   Inl e \<Rightarrow> (Failed e, w2)
                 | Inr metadata \<Rightarrow>
                     (case select_version pkg metadata of
                        Inl e \<Rightarrow> (Failed e, w2)
                      | Inr (version, versionInfo) \<Rightarrow>
                          (let depNames = map fst (packageDeps versionInfo);
                               (now, w3) = Date_now E w2;
                               packageData =
                                 \<lparr>pd_name = pkg, pd_version = version,
                                  pd_tarball = vi_tarball versionInfo,
                                  pd_dependencies = packageDeps versionInfo,
                                  pd_resolved = now,
                                  pd_main = None, pd_exports = None, pd_integrity = None\<rparr>;
                               w4 = cachePackage E pkg (PackageObject packageData) None w3
                           in (Resolved packageData depNames, w4)))))"

text \<open>
  The names whose metadata can still be obtained: those the registry answers with a
  body, and those whose metadata bytes are in the cache.
\<close>

definition known :: "env \<Rightarrow> world \<Rightarrow> string set" where
  "known E w =
     fst ` set (registry E) \<union>
     {n. \<exists>e m. map_of (cache w) (cacheKey n) = Some e \<and> ce_data e = JsonBytes m}"

function resolve_loop ::
  "env \<Rightarrow> string list \<Rightarrow> string list \<Rightarrow> (string \<times> cache_data) list \<Rightarrow> world
     \<Rightarrow> (string \<times> cache_data) list \<times> world" where
  "resolve_loop E [] visited resolved w = (resolved, w)"
| "resolve_loop E (pkg # queue) visited resolved w =
     (if pkg \<in> set visited then resolve_loop E queue visited resolved w
      else (case resolve_step E pkg w of
              (FromCache d, w') \<Rightarrow>
                resolve_loop E queue (visited @ [pkg]) (Map_set resolved pkg d) w'
            | (Resolved packageData depNames, w') \<Rightarrow>
                resolve_loop E (queue @ depNames) (visited @ [pkg])
                  (Map_set resolved pkg (PackageObject packageData)) w'
            | (Failed e, w') \<Rightarrow>
                resolve_loop E queue (visited @ [pkg]) resolved w'))"
  by pat_completeness auto

definition resolveDependencies ::
  "env \<Rightarrow> string list \<Rightarrow> world \<Rightarrow> (string \<times> cache_data) list \<times> world" where
  "resolveDependencies E packages w = resolve_loop E packages [] [] w"

subsection \<open>\<open>JSON.stringify(value, null, 2)\<close>\<close>

definition newline :: char where
  "newline = CHR 0x0A"

definition dquote :: char where
  "dquote = CHR 0x22"

definition backslash :: char where
  "backslash = CHR 0x5C"

definition digit_char :: "nat \<Rightarrow> char" where
  "digit_char n = ''0123456789abcdef'' ! (n mod 16)"

fun show_nat :: "nat \<Rightarrow> string" where
  "show_nat n = (if n < 10 then [digit_char n] else show_nat (n div 10) @ [digit_char (n mod 10)])"

definition quote_char :: "char \<Rightarrow> string" where
  "quote_char c =
     (if c = dquote then [backslash, dquote]
      else if c = backslash then [backslash, backslash]
      else if c = CHR 0x08 then [backslash, CHR ''b'']
      else if c = CHR 0x0C then [backslash, CHR ''f'']
      else if c = CHR 0x0A then [backslash, CHR ''n'']
      else if c = CHR 0x0D then [backslash, CHR ''r'']
      else if c = CHR 0x09 then [backslash, CHR ''t'']
      else if (of_char c :: nat) < 32
        then [backslash, CHR ''u'', CHR ''0'', CHR ''0'',
              digit_char (of_char c div 16), digit_char (of_char c mod 16)]
      else [c])"

definition QuoteJSONString :: "string \<Rightarrow> string" where
  "QuoteJSONString s = [dquote] @ concat (map quote_char s) @ [dquote]"

fun join :: "string \<Rightarrow> string list \<Rightarrow> string" where
  "join sep [] = []"
| "join sep [x] = x"
| "join sep (x # y # ys) = x @ sep @ join sep (y # ys)"

text \<open>
  \<open>SerializeJSONProperty\<close> with the gap of two spaces; \<open>None\<close> is \<open>undefined\<close>, and a
  property whose value serialises to \<open>undefined\<close> is left out of its object.
\<close>

fun SerializeJSONProperty :: "string \<Rightarrow> json \<Rightarrow> string option"
and SerializeJSONMembers :: "string \<Rightarrow> (string \<times> json) list \<Rightarrow> string list" where
  "SerializeJSONProperty indent JUndefined = None"
| "SerializeJSONProperty indent (JNumber n) = Some (show_nat n)"
| "SerializeJSONProperty indent (JString s) = Some (QuoteJSONString s)"
| "SerializeJSONProperty indent (JObject props) =
     (let stepback = indent;
          indent' = indent @ ''  '';
          partial = SerializeJSONMembers indent' props
      in if partial = [] then Some ''{}''
         else Some (''{'' @ [newline] @ indent' @
                    join ('','' @ [newline] @ indent') partial @
                    [newline] @ stepback @ ''}''))"
| "SerializeJSONMembers indent [] = []"
| "SerializeJSONMembers indent (kv # props) =
     (case SerializeJSONProperty indent (snd kv) of
        None \<Rightarrow> SerializeJSONMembers indent props
      | Some strP \<Rightarrow>
          (QuoteJSONString (fst kv) @ '': '' @ strP) # SerializeJSONMembers indent props)"

definition JSON_stringify :: "json \<Rightarrow> string" where
  "JSON_stringify v = (case SerializeJSONProperty [] v of None \<Rightarrow> ''undefined'' | Some s \<Rightarrow> s)"

definition deps_json :: "deps \<Rightarrow> json" where
  "deps_json d = JObject (map (\<lambda>kv. (fst kv, JString (snd kv))) d)"

definition opt_string :: "string option \<Rightarrow> json" where
  "opt_string s = (case s of None \<Rightarrow> JUndefined | Some v \<Rightarrow> JString v)"

subsection \<open>Property reads on a graph value\<close>

text \<open>
  A value of the graph is \<open>any\<close>: a package object or, when it was merged from a cache
  slot that holds metadata bytes, a \<open>Uint8Array\<close>, on which each of these properties
  is \<open>undefined\<close>.
\<close>

fun data_name :: "cache_data \<Rightarrow> string option" where
  "data_name (PackageObject p) = Some (pd_name p)"
| "data_name (JsonBytes m) = None"

fun data_version :: "cache_data \<Rightarrow> string option" where
  "data_version (PackageObject p) = Some (pd_version p)"
| "data_version (JsonBytes m) = None"

fun data_tarball :: "cache_data \<Rightarrow> string option" where
  "data_tarball (PackageObject p) = pd_tarball p"
| "data_tarball (JsonBytes m) = None"

fun data_dependencies :: "cache_data \<Rightarrow> deps option" where
  "data_dependencies (PackageObject p) = Some (pd_dependencies p)"
| "data_dependencies (JsonBytes m) = None"

fun data_main :: "cache_data \<Rightarrow> string option" where
  "data_main (PackageObject p) = pd_main p"
| "data_main (JsonBytes m) = None"

fun data_exports :: "cache_data \<Rightarrow> json option" where
  "data_exports (PackageObject p) = pd_exports p"
| "data_exports (JsonBytes m) = None"

fun data_integrity :: "cache_data \<Rightarrow> string option" where
  "data_integrity (PackageObject p) = pd_integrity p"
| "data_integrity (JsonBytes m) = None"

text \<open>\<open>a || b\<close> on a string that may be undefined, and \<open>${a}\<close> in a template.\<close>

definition or_else :: "string option \<Rightarrow> string \<Rightarrow> string" where
  "or_else a b = (case a of None \<Rightarrow> b | Some s \<Rightarrow> if s = [] then b else s)"

definition interp :: "string option \<Rightarrow> string" where
  "interp a = (case a of None \<Rightarrow> ''undefined'' | Some s \<Rightarrow> s)"

definition deps_or_empty :: "deps option \<Rightarrow> deps" where
  "deps_or_empty d = (case d of None \<Rightarrow> [] | Some x \<Rightarrow> x)"

fun truthy :: "json \<Rightarrow> bool" where
  "truthy JUndefined = False"
| "truthy (JNumber n) = (n \<noteq> 0)"
| "truthy (JString s) = (s \<noteq> [])"
| "truthy (JObject props) = True"

subsection \<open>VirtualInstaller\<close>

definition is_ident_char :: "char \<Rightarrow> bool" where
  "is_ident_char c =
     (let n = (of_char c :: nat)
      in (97 \<le> n \<and> n \<le> 122) \<or> (65 \<le> n \<and> n \<le> 90) \<or> (48 \<le> n \<and> n \<le> 57)
         \<or> c = CHR ''_'' \<or> c = CHR ''$'')"

definition mangleName :: "string \<Rightarrow> string" where
  "mangleName name = map (\<lambda>c. if is_ident_char c then c else CHR ''_'') name"

text \<open>The white space and line terminators that \<open>trim\<close> removes, among the characters.\<close>

definition is_space :: "char \<Rightarrow> bool" where
  "is_space c = (c \<in> set [CHR '' '', CHR 0x09, CHR 0x0A, CHR 0x0B, CHR 0x0C, CHR 0x0D, CHR 0xA0])"

definition trim :: "string \<Rightarrow> string" where
  "trim s = rev (dropWhile is_space (rev (dropWhile is_space s)))"

definition squote :: char where
  "squote = CHR 0x27"

definition generateIndexJS :: "cache_data \<Rightarrow> string" where
  "generateIndexJS packageData =
     (let entries = deps_or_empty (data_dependencies packageData);
          deps = join [newline]
                   (map (\<lambda>nv. ''  const '' @ mangleName (fst nv) @ '' = require('' @
                               [squote] @ fst nv @ [squote] @ '');'') entries);
          exports = join '', '' (map (\<lambda>nv. ''  '' @ mangleName (fst nv)) entries)
      in trim
           ([newline] @
            ''// ATiQ WebContainer Virtual Package: '' @ interp (data_name packageData) @
              ''@'' @ interp (data_version packageData) @ [newline] @
            ''// Generated automatically - do not edit'' @ [newline] @
            [newline] @
            deps @ [newline] @
            [newline] @
            ''module.exports = {'' @ [newline] @
            exports @ [newline] @
            ''};'' @ [newline] @
            [newline] @
            ''// Default export if main is not specified'' @ [newline] @
            ''if (typeof module !== '' @ [squote] @ ''undefined'' @ [squote] @
              '' && module.exports) {'' @ [newline] @
            ''  module.exports.default = module.exports;'' @ [newline] @
            ''}'' @ [newline] @
            ''    ''))"

definition packageJsonContent :: "cache_data \<Rightarrow> json" where
  "packageJsonContent packageData =
     JObject
       [(''name'', opt_string (data_name packageData)),
        (''version'', opt_string (data_version packageData)),
        (''main'', JString (or_else (data_main packageData) ''index.js'')),
        (''exports'', (case data_exports packageData of
                        None \<Rightarrow> JObject []
                      | Some x \<Rightarrow> if truthy x then x else JObject [])),
        (''dependencies'', deps_json (deps_or_empty (data_dependencies packageData)))]"

text \<open>
  A call of the filesystem collaborator is logged, then the collaborator decides from
  the calls so far whether this one throws.
\<close>

definition fs_call :: "env \<Rightarrow> fs_op \<Rightarrow> world \<Rightarrow> js_error option \<times> world" where
  "fs_call E op w = (fs_fault E (fs_ops w) op, w\<lparr>fs_ops := fs_ops w @ [op]\<rparr>)"

fun install_packages ::
  "env \<Rightarrow> string \<Rightarrow> (string \<times> cache_data) list \<Rightarrow> world \<Rightarrow> js_error option \<times> world" where
  "install_packages E nodeModulesPath [] w = (None, w)"
| "install_packages E nodeModulesPath (entry # rest) w =
     (let pkgName = fst entry;
          packageData = snd entry;
          packagePath = nodeModulesPath @ ''/'' @ pkgName
      in case fs_call E (Mkdir packagePath) w of
           (Some e, w1) \<Rightarrow> (Some e, w1)
         | (None, w1) \<Rightarrow>
             (case fs_call E (WriteFile (packagePath @ ''/package.json'')
                               (JSON_stringify (packageJsonContent packageData))) w1 of
                (Some e, w2) \<Rightarrow> (Some e, w2)
              | (None, w2) \<Rightarrow>
                  (case fs_call E (WriteFile (packagePath @ ''/index.js'')
                                    (generateIndexJS packageData)) w2 of
                     (Some e, w3) \<Rightarrow> (Some e, w3)
                   | (None, w3) \<Rightarrow> install_packages E nodeModulesPath rest w3)))"

definition createVirtualNodeModules ::
  "env \<Rightarrow> string \<Rightarrow> (string \<times> cache_data) list \<Rightarrow> world \<Rightarrow> js_error option \<times> world" where
  "createVirtualNodeModules E cwd resolvedGraph w =
     (let nodeModulesPath = cwd @ ''/node_modules''
      in case fs_call E (Mkdir nodeModulesPath) w of
           (Some e, w1) \<Rightarrow> (Some e, w1)
         | (None, w1) \<Rightarrow> install_packages E nodeModulesPath resolvedGraph w1)"

subsection \<open>LockfileGenerator\<close>

record lock_entry =
  le_version :: "string option"
  le_resolved :: "string option"
  le_integrity :: string
  le_dependencies :: deps

record lockfile =
  lf_name :: string
  lf_version :: string
  lf_lockfileVersion :: nat
  lf_packages :: "(string \<times> lock_entry) list"
  lf_dependencies :: "(string \<times> string option) list"

text \<open>
  The body of the \<open>for\<close> loop: two assignments, to a property of \<open>lockfile.packages\<close>
  and to a property of \<open>lockfile.dependencies\<close>.
\<close>

fun lockfile_loop :: "(string \<times> cache_data) list \<Rightarrow> lockfile \<Rightarrow> lockfile" where
  "lockfile_loop [] lf = lf"
| "lockfile_loop (entry # rest) lf =
     (let pkgName = fst entry;
          packageData = snd entry
      in lockfile_loop rest
           (lf\<lparr>lf_packages :=
                 Object_assign (lf_packages lf) (''node_modules/'' @ pkgName)
                   \<lparr>le_version = data_version packageData,
                    le_resolved = data_tarball packageData,
                    le_integrity = or_else (data_integrity packageData) ''sha512-unknown'',
                    le_dependencies = deps_or_empty (data_dependencies packageData)\<rparr>,
               lf_dependencies :=
                 Object_assign (lf_dependencies lf) pkgName (data_version packageData)\<rparr>))"

definition generateLockfile :: "(string \<times> cache_data) list \<Rightarrow> lockfile" where
  "generateLockfile resolvedGraph =
     lockfile_loop resolvedGraph
       \<lparr>lf_name = ''atiq-generated-lock'', lf_version = ''1.0.0'', lf_lockfileVersion = 1,
        lf_packages = [], lf_dependencies = []\<rparr>"

text \<open>The lockfile as the object that \<open>JSON.stringify\<close> receives.\<close>

definition lock_entry_json :: "lock_entry \<Rightarrow> json" where
  "lock_entry_json e =
     JObject
       [(''version'', opt_string (le_version e)),
        (''resolved'', opt_string (le_resolved e)),
        (''integrity'', JString (le_integrity e)),
        (''dependencies'', deps_json (le_dependencies e))]"

definition lockfile_json :: "lockfile \<Rightarrow> json" where
  "lockfile_json lf =
     JObject
       [(''name'', JString (lf_name lf)),
        (''version'', JString (lf_version lf)),
        (''lockfileVersion'', JNumber (lf_lockfileVersion lf)),
        (''packages'', JObject (map (\<lambda>kv. (fst kv, lock_entry_json (snd kv))) (lf_packages lf))),
        (''dependencies'', JObject (map (\<lambda>kv. (fst kv, opt_string (snd kv))) (lf_dependencies lf)))]"

definition lockfile_bytes :: "(string \<times> cache_data) list \<Rightarrow> string" where
  "lockfile_bytes resolvedGraph = JSON_stringify (lockfile_json (generateLockfile resolvedGraph))"

subsection \<open>PackageManagerFacade\<close>

record install_options =
  opt_cwd :: "string option"
  opt_packages :: "string list option"
  opt_dev :: "bool option"

record install_metadata =
  md_packages :: nat
  md_resolved :: nat
  md_fromCache :: nat

record install_result =
  success :: bool
  installed :: "string list"
  duration :: int
  error :: "string option"
  result_metadata :: "install_metadata option"

definition extractDependencies :: "manifest_json \<Rightarrow> bool option \<Rightarrow> string list" where
  "extractDependencies packageJson dev =
     (case packageJson of
        Falsy \<Rightarrow> []
      | Manifest dependencies devDependencies \<Rightarrow>
          (case dependencies of None \<Rightarrow> [] | Some d \<Rightarrow> map fst d) @
          (if dev = Some True
           then (case devDependencies of None \<Rightarrow> [] | Some d \<Rightarrow> map fst d)
           else []))"

definition getCacheHitCount :: "(string \<times> cache_data) list \<Rightarrow> world \<Rightarrow> nat" where
  "getCacheHitCount resolvedGraph w =
     length (filter (\<lambda>pkgName. Map_get (cache w) pkgName \<noteq> None) (Map_keys resolvedGraph))"

text \<open>The inner \<open>try\<close>: reading and parsing \<open>package.json\<close>; any error leaves \<open>null\<close>.\<close>

definition read_package_json :: "env \<Rightarrow> string \<Rightarrow> manifest_json" where
  "read_package_json E cwd =
     (case fs_readFile E (cwd @ ''/package.json'') of
        Inl e \<Rightarrow> Falsy
      | Inr packageContent \<Rightarrow>
          (case JSON_parse E packageContent of
             Inl e \<Rightarrow> Falsy
           | Inr parsed \<Rightarrow> parsed))"

text \<open>The outer \<open>try\<close> block of \<open>install\<close>: \<open>Inl e\<close> is an error thrown inside it.\<close>

definition install_try ::
  "env \<Rightarrow> install_options \<Rightarrow> int \<Rightarrow> string \<Rightarrow> world \<Rightarrow> (js_error + install_result) \<times> world" where
  "install_try E options startTime cwd w =
     (let packageJson = read_package_json E cwd
      in if packageJson = Falsy \<and> opt_packages options = None
         then (Inl (Error ''No package.json found and no packages specified''), w)
         else
           (let packages = (case opt_packages options of
                              Some ps \<Rightarrow> ps
                            | None \<Rightarrow> extractDependencies packageJson (opt_dev options))
            in if length packages = 0
               then (let (now, w1) = Date_now E w
                     in (Inr \<lparr>success = True, installed = [], duration = now - startTime,
                              error = None, result_metadata = None\<rparr>, w1))
               else
                 (let (resolvedGraph, w1) = resolveDependencies E packages w
                  in case createVirtualNodeModules E cwd resolvedGraph w1 of
                       (Some e, w2) \<Rightarrow> (Inl e, w2)
                     | (None, w2) \<Rightarrow>
                         (case fs_call E (WriteFile (cwd @ ''/package-lock.json'')
                                           (lockfile_bytes resolvedGraph)) w2 of
                            (Some e, w3) \<Rightarrow> (Inl e, w3)
                          | (None, w3) \<Rightarrow>
                              (let (now, w4) = Date_now E w3
                               in (Inr \<lparr>success = True,
                                        installed = Object_keys (MapObject resolvedGraph),
                                        duration = now - startTime,
                                        error = None,
                                        result_metadata = Some
                                          \<lparr>md_packages = length packages,
                                           md_resolved =
                                             length (Object_keys (MapObject resolvedGraph)),
                                           md_fromCache =
                                             getCacheHitCount resolvedGraph w4\<rparr>\<rparr>,
                                   w4))))))"

definition install ::
  "env \<Rightarrow> install_options \<Rightarrow> world \<Rightarrow> (js_error + install_result) \<times> world" where
  "install E options w =
     (let (startTime, w0) = Date_now E w;
          cwd = or_else (opt_cwd options) ''/''
      in case install_try E options startTime cwd w0 of
           (Inr result, w1) \<Rightarrow> (Inr result, w1)
         | (Inl e, w1) \<Rightarrow>
             (let (now, w2) = Date_now E w1
              in (Inr \<lparr>success = False, installed = [], duration = now - startTime,
                       error = Some (String_of_error e), result_metadata = None\<rparr>, w2)))"

section \<open>Vocabulary of the properties\<close>

text \<open>
  The package list that \<open>install\<close> determines
  (\<open>options.packages || this.extractDependencies(packageJson, options.dev)\<close>), the
  condition under which it throws "No package.json found", and a filesystem whose
  calls never throw.
\<close>

definition determined_packages :: "env \<Rightarrow> install_options \<Rightarrow> string list" where
  "determined_packages E options =
     (case opt_packages options of
        Some ps \<Rightarrow> ps
      | None \<Rightarrow> extractDependencies (read_package_json E (or_else (opt_cwd options) ''/''))
                  (opt_dev options))"

definition no_manifest :: "env \<Rightarrow> install_options \<Rightarrow> bool" where
  "no_manifest E options \<longleftrightarrow>
     read_package_json E (or_else (opt_cwd options) ''/'') = Falsy \<and> opt_packages options = None"

definition fs_reliable :: "env \<Rightarrow> bool" where
  "fs_reliable E \<longleftrightarrow> (\<forall>done op. fs_fault E done op = None)"

text \<open>
  The invariant of the cache and of a resolution graph: a package object is stored under
  its own name and has no \<open>integrity\<close> property. The empty cache satisfies it and
  \<open>cachePackage\<close>, the only writer, keeps it.
\<close>

definition entry_ok :: "string \<Rightarrow> cache_data \<Rightarrow> bool" where
  "entry_ok k d =
     (case d of
        PackageObject p \<Rightarrow> pd_name p = k \<and> pd_integrity p = None
      | JsonBytes m \<Rightarrow> True)"

definition cache_wf :: "world \<Rightarrow> bool" where
  "cache_wf w = list_all (\<lambda>kv. entry_ok (fst kv) (ce_data (snd kv))) (cache w)"

definition graph_wf :: "(string \<times> cache_data) list \<Rightarrow> bool" where
  "graph_wf g = list_all (\<lambda>kv. entry_ok (fst kv) (snd kv)) g"

text \<open>The entry that \<open>generateLockfile\<close> builds for a graph value.\<close>

definition lock_entry_of :: "cache_data \<Rightarrow> lock_entry" where
  "lock_entry_of packageData =
     \<lparr>le_version = data_version packageData,
      le_resolved = data_tarball packageData,
      le_integrity = or_else (data_integrity packageData) ''sha512-unknown'',
      le_dependencies = deps_or_empty (data_dependencies packageData)\<rparr>"

text \<open>
  What the registry alone says about a name: the version record that a resolution from
  the registry selects, whether there is one, and the names it depends on. A name is
  reachable from a request when it is requested or is a dependency of a reachable name.
  The names of the registry are package names: none of them starts with \<open>metadata:\<close>,
  the prefix of the cache keys for metadata.
\<close>

definition registry_version :: "env \<Rightarrow> string \<Rightarrow> (string \<times> version_info) option" where
  "registry_version E n =
     (case map_of (registry E) n of
        None \<Rightarrow> None
      | Some response \<Rightarrow>
          (case response of
             OkJson m \<Rightarrow> (case select_version n m of Inl e \<Rightarrow> None | Inr vv \<Rightarrow> Some vv)
           | _ \<Rightarrow> None))"

definition resolvable :: "env \<Rightarrow> string \<Rightarrow> bool" where
  "resolvable E n \<longleftrightarrow> registry_version E n \<noteq> None"

definition registry_deps :: "env \<Rightarrow> string \<Rightarrow> string list" where
  "registry_deps E n =
     (case registry_version E n of
        None \<Rightarrow> []
      | Some vv \<Rightarrow> map fst (packageDeps (snd vv)))"

inductive reachable :: "env \<Rightarrow> string list \<Rightarrow> string \<Rightarrow> bool" for E packages where
  request: "p \<in> set packages \<Longrightarrow> reachable E packages p"
| dependency: "reachable E packages n \<Longrightarrow> d \<in> set (registry_deps E n) \<Longrightarrow> reachable E packages d"

definition plain_registry :: "env \<Rightarrow> bool" where
  "plain_registry E \<longleftrightarrow> list_all (\<lambda>n. take 9 n \<noteq> ''metadata:'') (map fst (registry E))"

text \<open>
  A cache that is consistent with the registry: a package object lies in a slot that
  never expires, under a name that the registry resolves; metadata bytes lie under
  \<open>metadata:n\<close> and encode the answer of the registry for \<open>n\<close>. The empty cache is
  consistent and the resolver keeps the cache consistent.
\<close>

definition registry_metadata :: "env \<Rightarrow> string \<Rightarrow> metadata option" where
  "registry_metadata E n =
     (case map_of (registry E) n of
        None \<Rightarrow> None
      | Some response \<Rightarrow> (case response of OkJson m \<Rightarrow> Some m | _ \<Rightarrow> None))"

definition slot_consistent :: "env \<Rightarrow> string \<Rightarrow> cache_entry \<Rightarrow> bool" where
  "slot_consistent E k c =
     (case ce_data c of
        PackageObject p \<Rightarrow> ce_expires c = None \<and> resolvable E k
      | JsonBytes m \<Rightarrow>
          (\<exists>n \<in> set (map fst (registry E)). k = cacheKey n \<and> registry_metadata E n = Some m))"

definition cache_consistent :: "env \<Rightarrow> world \<Rightarrow> bool" where
  "cache_consistent E w = list_all (\<lambda>kv. slot_consistent E (fst kv) (snd kv)) (cache w)"

text \<open>
  The names that enter the queue of a resolution that starts in the state \<open>w\<close>: the
  requested names, and the dependencies of a queued name that has no slot in the cache
  (a name served from its cache slot contributes no dependencies).
\<close>

inductive enqueued :: "env \<Rightarrow> world \<Rightarrow> string list \<Rightarrow> string \<Rightarrow> bool" for E w packages where
  requested: "p \<in> set packages \<Longrightarrow> enqueued E w packages p"
| pushed: "enqueued E w packages n \<Longrightarrow> map_of (cache w) n = None \<Longrightarrow>
           d \<in> set (registry_deps E n) \<Longrightarrow> enqueued E w packages d"

text \<open>
  A name of the graph that the registry does not resolve was served from the cache slot
  that holds the metadata of a package of the registry.
\<close>

definition metadata_slot_name :: "env \<Rightarrow> string \<Rightarrow> bool" where
  "metadata_slot_name E k \<longleftrightarrow>
     (\<exists>n \<in> set (map fst (registry E)). k = cacheKey n \<and> registry_metadata E n \<noteq> None)"

text \<open>The invariant of the loop of a resolution that starts with the cache \<open>c0\<close>.\<close>

definition resolve_inv ::
  "env \<Rightarrow> (string \<times> cache_entry) list \<Rightarrow> string list \<Rightarrow> string list \<Rightarrow> string list
     \<Rightarrow> (string \<times> cache_data) list \<Rightarrow> world \<Rightarrow> bool" where
  "resolve_inv E c0 packages queue visited resolved w \<longleftrightarrow>
     cache_consistent E w \<and>
     (\<forall>k. k \<notin> set visited \<and> k \<notin> range cacheKey \<longrightarrow> map_of (cache w) k = map_of c0 k) \<and>
     (\<forall>n \<in> set visited. resolvable E n \<longrightarrow> n \<in> fst ` set resolved) \<and>
     (\<forall>n \<in> set visited. map_of c0 n = None \<longrightarrow>
        set (registry_deps E n) \<subseteq> set visited \<union> set queue) \<and>
     set packages \<subseteq> set visited \<union> set queue \<and>
     (\<forall>k \<in> fst ` set resolved. resolvable E k \<or> metadata_slot_name E k)"

text \<open>
  The \<open>while\<close> loop with a budget of iterations (\<open>None\<close>: the budget ran out before the
  queue was empty), and dependency cycles: in \<open>dep_path\<close> every name depends on the
  next one, and a cycle is a path that leads back to its first name.
\<close>

fun resolve_bounded ::
  "nat \<Rightarrow> env \<Rightarrow> string list \<Rightarrow> string list \<Rightarrow> (string \<times> cache_data) list \<Rightarrow> world
     \<Rightarrow> ((string \<times> cache_data) list \<times> world) option" where
  "resolve_bounded fuel E [] visited resolved w = Some (resolved, w)"
| "resolve_bounded 0 E (pkg # queue) visited resolved w = None"
| "resolve_bounded (Suc fuel) E (pkg # queue) visited resolved w =
     (if pkg \<in> set visited then resolve_bounded fuel E queue visited resolved w
      else (case resolve_step E pkg w of
              (FromCache d, w') \<Rightarrow>
                resolve_bounded fuel E queue (visited @ [pkg]) (Map_set resolved pkg d) w'
            | (Resolved packageData depNames, w') \<Rightarrow>
                resolve_bounded fuel E (queue @ depNames) (visited @ [pkg])
                  (Map_set resolved pkg (PackageObject packageData)) w'
            | (Failed e, w') \<Rightarrow>
                resolve_bounded fuel E queue (visited @ [pkg]) resolved w'))"

fun dep_path :: "env \<Rightarrow> string list \<Rightarrow> bool" where
  "dep_path E [] = True"
| "dep_path E [a] = True"
| "dep_path E (a # b # rest) = (b \<in> set (registry_deps E a) \<and> dep_path E (b # rest))"

definition dep_cycle :: "env \<Rightarrow> string list \<Rightarrow> bool" where
  "dep_cycle E cyc \<longleftrightarrow> cyc \<noteq> [] \<and> dep_path E (cyc @ [hd cyc])"

section \<open>Example environments\<close>

text \<open>
  A registry in which \<open>pkg-a\<close> depends on \<open>pkg-b\<close> and \<open>pkg-b\<close> on \<open>pkg-c\<close>, one in
  which \<open>pkg-a\<close> and \<open>pkg-b\<close> depend on each other, a filesystem without
  \<open>package.json\<close> that accepts every write, and a fresh package manager.
\<close>

definition simple_package :: "string \<Rightarrow> deps \<Rightarrow> string \<times> fetch_response" where
  "simple_package name ds =
     (name, OkJson \<lparr>dist_tags_latest = Some ''1.0.0'',
                    versions = Some [(''1.0.0'', \<lparr>vi_dependencies = Some ds,
                                                  vi_tarball = Some (name @ ''.tgz'')\<rparr>)]\<rparr>)"

definition env_of :: "(string \<times> fetch_response) list \<Rightarrow> env" where
  "env_of reg =
     \<lparr>clock = (\<lambda>n. 1000 + int n),
      registry = reg,
      fs_readFile = (\<lambda>path. Inl (Error ''ENOENT'')),
      JSON_parse = (\<lambda>text. Inl (JsError ''SyntaxError'' ''Unexpected end of JSON input'')),
      fs_fault = (\<lambda>done op. None)\<rparr>"

definition chain_env :: env where
  "chain_env =
     env_of [simple_package ''pkg-a'' [(''pkg-b'', ''^1.0.0'')],
             simple_package ''pkg-b'' [(''pkg-c'', ''^1.0.0'')],
             simple_package ''pkg-c'' []]"

definition cycle_env :: env where
  "cycle_env =
     env_of [simple_package ''pkg-a'' [(''pkg-b'', ''^1.0.0'')],
             simple_package ''pkg-b'' [(''pkg-a'', ''^1.0.0'')]]"

definition fresh :: world where
  "fresh = \<lparr>cache = [], ticks = 0, fetched = [], fs_ops = []\<rparr>"

definition request :: "string list \<Rightarrow> install_options" where
  "request ps = \<lparr>opt_cwd = None, opt_packages = Some ps, opt_dev = None\<rparr>"

definition no_options :: install_options where
  "no_options = \<lparr>opt_cwd = None, opt_packages = None, opt_dev = None\<rparr>"

definition empty_manifest_env :: env where
  "empty_manifest_env =
     (env_of [])
       \<lparr>fs_readFile := (\<lambda>path. if path = ''//package.json'' then Inr ''{}''
                               else Inl (Error ''ENOENT'')),
        JSON_parse := (\<lambda>text. if text = ''{}'' then Inr (Manifest None None)
                              else Inl (JsError ''SyntaxError'' ''Unexpected token''))\<rparr>"

definition readonly_env :: env where
  "readonly_env =
     (env_of [])\<lparr>fs_fault := (\<lambda>done op. Some (Error ''EROFS: read-only file system''))\<rparr>"

definition warm :: world where
  "warm = snd (fetchPackageMetadata chain_env ''pkg-c'' fresh)"

definition pkg_c_metadata :: metadata where
  "pkg_c_metadata =
     \<lparr>dist_tags_latest = Some ''1.0.0'',
      versions = Some [(''1.0.0'', \<lparr>vi_dependencies = Some [],
                                    vi_tarball = Some ''pkg-c.tgz''\<rparr>)]\<rparr>"

definition simple_data :: "string \<Rightarrow> cache_data" where
  "simple_data name =
     PackageObject \<lparr>pd_name = name, pd_version = ''1.0.0'', pd_tarball = None,
                    pd_dependencies = [], pd_resolved = 0,
                    pd_main = None, pd_exports = None, pd_integrity = None\<rparr>"

definition graph_ab :: "(string \<times> cache_data) list" where
  "graph_ab = [(''a'', simple_data ''a''), (''b'', simple_data ''b'')]"

definition graph_ba :: "(string \<times> cache_data) list" where
  "graph_ba = [(''b'', simple_data ''b''), (''a'', simple_data ''a'')]"

definition flaky_env :: env where
  "flaky_env =
     env_of [(''broken'', NetworkFailure (TypeError ''Failed to fetch'')),
             (''noversion'', OkJson \<lparr>dist_tags_latest = Some ''2.0.0'',
                                     versions = Some [(''1.0.0'', \<lparr>vi_dependencies = None,
                                                                   vi_tarball = None\<rparr>)]\<rparr>),
             simple_package ''pkg-a'' [(''pkg-b'', ''^1.0.0''), (''pkg-x'', ''^1.0.0'')],
             simple_package ''pkg-b'' []]"

text \<open>
  A clock that advances by 400 seconds between two readings, the cache after one fetch of
  the metadata of \<open>pkg-c\<close> under that clock, and the caches that a first resolution
  leaves behind.
\<close>

definition slow_clock_env :: env where
  "slow_clock_env = chain_env\<lparr>clock := (\<lambda>n. 1000 + 400000 * int n)\<rparr>"

definition stale :: world where
  "stale = snd (fetchPackageMetadata slow_clock_env ''pkg-c'' fresh)"

definition flaky_warm :: world where
  "flaky_warm = snd (resolveDependencies flaky_env [''pkg-b''] fresh)"

definition cycle_warm :: world where
  "cycle_warm = snd (resolveDependencies cycle_env [''pkg-a''] fresh)"

text \<open>
  The graph of \<open>install({packages: ["pkg-c", "metadata:pkg-c"]})\<close> on a fresh package
  manager, and graphs with a name that is an array index or \<open>__proto__\<close>.
\<close>

definition collision_graph :: "(string \<times> cache_data) list" where
  "collision_graph =
     fst (resolveDependencies chain_env [''pkg-c'', ''metadata:pkg-c'']
            (snd (Date_now chain_env fresh)))"

definition graph_b2 :: "(string \<times> cache_data) list" where
  "graph_b2 = [(''b'', simple_data ''b''), (''2'', simple_data ''2'')]"

definition graph_proto :: "(string \<times> cache_data) list" where
  "graph_proto = [(''a'', simple_data ''a''), (''__proto__'', simple_data ''__proto__'')]"

text \<open>The text of \<open>package-lock.json\<close> for that graph, line by line.\<close>

definition collision_lockfile_text :: string where
  "collision_lockfile_text =
     join [newline]
       [''{'',
        ''  '' @ QuoteJSONString ''name'' @ '': '' @ QuoteJSONString ''atiq-generated-lock'' @ '','',
        ''  '' @ QuoteJSONString ''version'' @ '': '' @ QuoteJSONString ''1.0.0'' @ '','',
        ''  '' @ QuoteJSONString ''lockfileVersion'' @ '': 1,'',
        ''  '' @ QuoteJSONString ''packages'' @ '': {'',
        ''    '' @ QuoteJSONString ''node_modules/pkg-c'' @ '': {'',
        ''      '' @ QuoteJSONString ''version'' @ '': '' @ QuoteJSONString ''1.0.0'' @ '','',
        ''      '' @ QuoteJSONString ''resolved'' @ '': '' @ QuoteJSONString ''pkg-c.tgz'' @ '','',
        ''      '' @ QuoteJSONString ''integrity'' @ '': '' @ QuoteJSONString ''sha512-unknown'' @ '','',
        ''      '' @ QuoteJSONString ''dependencies'' @ '': {}'',
        ''    },'',
        ''    '' @ QuoteJSONString ''node_modules/metadata:pkg-c'' @ '': {'',
        ''      '' @ QuoteJSONString ''integrity'' @ '': '' @ QuoteJSONString ''sha512-unknown'' @ '','',
        ''      '' @ QuoteJSONString ''dependencies'' @ '': {}'',
        ''    }'',
        ''  },'',
        ''  '' @ QuoteJSONString ''dependencies'' @ '': {'',
        ''    '' @ QuoteJSONString ''pkg-c'' @ '': '' @ QuoteJSONString ''1.0.0'',
        ''  }'',
        ''}'']"

section \<open>Termination of the resolver\<close>

lemma map_of_Map_set: "map_of (Map_set m k v) = (map_of m)(k \<mapsto> v)"
  by (induction m) (auto simp: fun_eq_iff)

lemma Map_keys_Map_set:
  "map fst (Map_set m k v) = (if k \<in> set (map fst m) then map fst m else map fst m @ [k])"
  by (induction m) auto

lemma cacheKey_inj [simp]: "cacheKey a = cacheKey b \<longleftrightarrow> a = b"
  by (simp add: cacheKey_def)

lemma cache_Date_now [simp]: "cache (snd (Date_now E w)) = cache w"
  by (simp add: Date_now_def)

lemma cache_isCacheValid [simp]: "cache (snd (isCacheValid E e w)) = cache w"
  by (simp add: isCacheValid_def Date_now_def split: option.splits prod.splits)

lemma cache_valid_entry [simp]: "cache (snd (valid_entry E k w)) = cache w"
  by (auto simp: valid_entry_def Map_get_def isCacheValid_def Date_now_def split: option.splits prod.splits)

lemma valid_entry_Some: "fst (valid_entry E k w) = Some c \<Longrightarrow> map_of (cache w) k = Some c"
  by (auto simp: valid_entry_def Map_get_def split: option.splits prod.splits if_splits)

lemma cache_cachePackage [simp]:
  "cache (cachePackage E key d ex w) =
     Map_set (cache w) key \<lparr>ce_key = key, ce_data = d, ce_timestamp = clock E (ticks w), ce_expires = ex\<rparr>"
  by (simp add: cachePackage_def Date_now_def)

lemma cache_fetch [simp]: "cache (snd (fetch E n w)) = cache w"
  by (simp add: fetch_def)

lemma known_cachePackage_obj: "known E (cachePackage E key (PackageObject p) ex w) \<subseteq> known E w"
  by (auto simp: known_def map_of_Map_set split: if_splits)

lemma known_cachePackage_bytes:
  "n \<in> fst ` set (registry E) \<Longrightarrow>
   known E (cachePackage E (cacheKey n) (JsonBytes m) ex w) \<subseteq> known E w"
  by (auto simp: known_def map_of_Map_set split: if_splits)

lemma fetch_OkJson: "fst (fetch E n w) = OkJson m \<Longrightarrow> n \<in> fst ` set (registry E)"
  by (auto simp: fetch_def split: option.splits dest: map_of_SomeD intro: rev_image_eqI)

lemma fetchPackageMetadata_hit:
  assumes "valid_entry E (cacheKey n) w = (Some c, w1)"
  shows "fetchPackageMetadata E n w = (decode_parse (ce_data c), w1)"
  using assms by (simp add: fetchPackageMetadata_def)

lemma fetchPackageMetadata_miss:
  assumes "valid_entry E (cacheKey n) w = (None, w1)"
  shows "fetchPackageMetadata E n w =
    (case fst (fetch E n w1) of
       NetworkFailure e \<Rightarrow> (Inl e, snd (fetch E n w1))
     | NotOk statusText \<Rightarrow> (Inl (Error (''Failed to fetch package metadata: '' @ statusText)), snd (fetch E n w1))
     | BadBody e \<Rightarrow> (Inl e, snd (fetch E n w1))
     | OkJson m \<Rightarrow> (Inr m, cachePackage E (cacheKey n) (JsonBytes m)
          (Some (fst (Date_now E (snd (Date_now E (snd (fetch E n w1))))) + 5 * 60 * 1000))
          (snd (Date_now E (snd (Date_now E (snd (fetch E n w1))))))))"
  using assms by (simp add: fetchPackageMetadata_def split: prod.splits fetch_response.splits)

lemma known_fetchPackageMetadata: "known E (snd (fetchPackageMetadata E n w)) \<subseteq> known E w"
proof (cases "valid_entry E (cacheKey n) w")
  case (Pair hit w1)
  have c1: "cache w1 = cache w" using cache_valid_entry[of E "cacheKey n" w] Pair by simp
  show ?thesis
  proof (cases hit)
    case None
    show ?thesis
    proof (cases "fst (fetch E n w1)")
      case (OkJson m)
      have "n \<in> fst ` set (registry E)" using fetch_OkJson[OF OkJson] .
      then show ?thesis using Pair None OkJson c1
        by (auto simp add: fetchPackageMetadata_miss known_def map_of_Map_set split: if_splits) 
    qed (use Pair None c1 in \<open>simp_all add: fetchPackageMetadata_miss known_def\<close>)
  next
    case (Some c)
    then show ?thesis using Pair c1 by (simp add: fetchPackageMetadata_hit known_def)
  qed
qed

lemma fetchPackageMetadata_Inr_known:
  assumes "fst (fetchPackageMetadata E n w) = Inr m" shows "n \<in> known E w"
proof (cases "valid_entry E (cacheKey n) w")
  case (Pair hit w1)
  show ?thesis
  proof (cases hit)
    case None
    with assms Pair have "fst (fetch E n w1) = OkJson m"
      by (simp add: fetchPackageMetadata_miss split: fetch_response.splits)
    then show ?thesis using fetch_OkJson by (simp add: known_def)
  next
    case (Some c)
    with Pair have "map_of (cache w) (cacheKey n) = Some c"
      using valid_entry_Some[of E "cacheKey n" w c] by simp
    moreover from assms Pair Some have "decode_parse (ce_data c) = Inr m"
      by (simp add: fetchPackageMetadata_hit)
    then have "ce_data c = JsonBytes m" by (cases "ce_data c") auto
    ultimately show ?thesis by (auto simp: known_def)
  qed
qed

lemma resolve_step_cases:
  obtains (hit) c w1 where "valid_entry E pkg w = (Some c, w1)"
      "resolve_step E pkg w = (FromCache (ce_data c), w1)"
  | (fetch_failed) w1 e w2 where "valid_entry E pkg w = (None, w1)"
      "fetchPackageMetadata E pkg w1 = (Inl e, w2)"
      "resolve_step E pkg w = (Failed e, w2)"
  | (no_version) w1 m w2 e where "valid_entry E pkg w = (None, w1)"
      "fetchPackageMetadata E pkg w1 = (Inr m, w2)" "select_version pkg m = Inl e"
      "resolve_step E pkg w = (Failed e, w2)"
  | (resolved) w1 m w2 version vi where "valid_entry E pkg w = (None, w1)"
      "fetchPackageMetadata E pkg w1 = (Inr m, w2)" "select_version pkg m = Inr (version, vi)"
      "resolve_step E pkg w =
         (Resolved \<lparr>pd_name = pkg, pd_version = version, pd_tarball = vi_tarball vi,
                    pd_dependencies = packageDeps vi, pd_resolved = clock E (ticks w2),
                    pd_main = None, pd_exports = None, pd_integrity = None\<rparr>
                   (map fst (packageDeps vi)),
          cachePackage E pkg (PackageObject \<lparr>pd_name = pkg, pd_version = version,
                    pd_tarball = vi_tarball vi,
                    pd_dependencies = packageDeps vi, pd_resolved = clock E (ticks w2),
                    pd_main = None, pd_exports = None, pd_integrity = None\<rparr>) None
            (w2\<lparr>ticks := Suc (ticks w2)\<rparr>))"
proof (cases "valid_entry E pkg w")
  case (Pair h w1)
  show ?thesis
  proof (cases h)
    case (Some c)
    with Pair show ?thesis by (intro hit[of c w1]) (simp_all add: resolve_step_def)
  next
    case None
    obtain r w2 where f: "fetchPackageMetadata E pkg w1 = (r, w2)"
      by (cases "fetchPackageMetadata E pkg w1")
    show ?thesis
    proof (cases r)
      case (Inl e)
      with Pair None f show ?thesis
        by (intro fetch_failed[of w1 e w2]) (simp_all add: resolve_step_def)
    next
      case (Inr m)
      show ?thesis
      proof (cases "select_version pkg m")
        case (Inl e)
        with Pair None f Inr show ?thesis
          by (intro no_version[of w1 m w2 e]) (simp_all add: resolve_step_def)
      next
        case r: (Inr vv)
        obtain version vi where vv: "vv = (version, vi)" by (cases vv)
        with Pair None f Inr r show ?thesis
          by (intro resolved[of w1 m w2 version vi]) (simp_all add: resolve_step_def Date_now_def Let_def)
      qed
    qed
  qed
qed

lemma known_resolve_step: "known E (snd (resolve_step E pkg w)) \<subseteq> known E w"
proof (cases E pkg w rule: resolve_step_cases)
  case (hit c w1)
  then show ?thesis using cache_valid_entry[of E pkg w] by (simp add: known_def)
next
  case (fetch_failed w1 e w2)
  then show ?thesis
    using cache_valid_entry[of E pkg w] known_fetchPackageMetadata[of E pkg w1]
    by (simp add: known_def)
next
  case (no_version w1 m w2 e)
  then show ?thesis
    using cache_valid_entry[of E pkg w] known_fetchPackageMetadata[of E pkg w1]
    by (simp add: known_def)
next
  case (resolved w1 m w2 version vi)
  have a: "known E w2 \<subseteq> known E w"
    using resolved cache_valid_entry[of E pkg w] known_fetchPackageMetadata[of E pkg w1]
    by (simp add: known_def)
  have "known E (w2\<lparr>ticks := Suc (ticks w2)\<rparr>) = known E w2" by (simp add: known_def)
  then show ?thesis using resolved(4) a known_cachePackage_obj[of E pkg _ None "w2\<lparr>ticks := Suc (ticks w2)\<rparr>"]
    by (simp del: cache_cachePackage) blast
qed

lemma resolve_step_Resolved_known:
  assumes "fst (resolve_step E pkg w) = Resolved pd ds" shows "pkg \<in> known E w"
proof (cases E pkg w rule: resolve_step_cases)
  case (resolved w1 m w2 version vi)
  then have "pkg \<in> known E w1" using fetchPackageMetadata_Inr_known[of E pkg w1 m] by simp
  then show ?thesis using resolved(1) cache_valid_entry[of E pkg w] by (simp add: known_def)
qed (use assms in simp_all)

lemma finite_known: "finite (known E w)"
proof -
  have "{n. \<exists>e m. map_of (cache w) (cacheKey n) = Some e \<and> ce_data e = JsonBytes m}
        \<subseteq> drop 9 ` fst ` set (cache w)"
  proof
    fix n assume "n \<in> {n. \<exists>e m. map_of (cache w) (cacheKey n) = Some e \<and> ce_data e = JsonBytes m}"
    then obtain e where "map_of (cache w) (cacheKey n) = Some e" by auto
    then have "cacheKey n \<in> fst ` set (cache w)" by (auto dest: map_of_SomeD intro: rev_image_eqI)
    moreover have "drop 9 (cacheKey n) = n" by (simp add: cacheKey_def)
    ultimately show "n \<in> drop 9 ` fst ` set (cache w)" by (metis imageI)
  qed
  then have "finite {n. \<exists>e m. map_of (cache w) (cacheKey n) = Some e \<and> ce_data e = JsonBytes m}"
    by (rule finite_subset) simp
  then show ?thesis by (simp add: known_def)
qed

lemma step_measure_le:
  assumes "(x, y) = resolve_step E pkg w"
  shows "card (known E y - set (visited @ [pkg])) \<le> card (known E w - set visited)"
proof -
  have "y = snd (resolve_step E pkg w)" using assms by (metis snd_conv)
  then have "known E y - set (visited @ [pkg]) \<subseteq> known E w - set visited"
    using known_resolve_step[of E pkg w] by auto
  then show ?thesis by (intro card_mono) (auto simp: finite_known)
qed

lemma step_measure_less:
  assumes "(Resolved pd ds, y) = resolve_step E pkg w" and "pkg \<notin> set visited"
  shows "card (known E y - set (visited @ [pkg])) < card (known E w - set visited)"
proof -
  have y: "y = snd (resolve_step E pkg w)" and f: "fst (resolve_step E pkg w) = Resolved pd ds"
    using assms(1) by (metis snd_conv, metis fst_conv)
  have "pkg \<in> known E w" using resolve_step_Resolved_known[OF f] .
  then have "known E y - set (visited @ [pkg]) \<subset> known E w - set visited"
    using known_resolve_step[of E pkg w] y assms(2) by auto
  then show ?thesis by (intro psubset_card_mono) (auto simp: finite_known)
qed

termination resolve_loop
proof (relation "inv_image (less_than <*lex*> less_than)
         (\<lambda>(E, queue, visited, resolved, w). (card (known E w - set visited), length queue))",
       goal_cases)
  case 1
  show ?case by (intro wf_inv_image wf_lex_prod wf_less_than)
next
  case 2
  then show ?case by simp
next
  case (3 E pkg queue visited resolved w x y d)
  then show ?case using step_measure_le[of x y E pkg w visited] by auto
next
  case (4 E pkg queue visited resolved w x y pd ds)
  then show ?case using step_measure_less[of pd ds y E pkg w visited] by auto
next
  case (5 E pkg queue visited resolved w x y e)
  then show ?case using step_measure_le[of x y E pkg w visited] by auto
qed


section \<open>The facade\<close>

lemma install_no_manifest:
  assumes "no_manifest E options"
  shows "install E options w =
    (Inr \<lparr>success = False, installed = [],
          duration = clock E (Suc (ticks w)) - clock E (ticks w),
          error = Some ''Error: No package.json found and no packages specified'',
          result_metadata = None\<rparr>,
     w\<lparr>ticks := Suc (Suc (ticks w))\<rparr>)"
  using assms
  by (simp add: no_manifest_def install_def install_try_def Date_now_def String_of_error_def Error_def)

lemma install_empty:
  assumes "\<not> no_manifest E options" and "determined_packages E options = []"
  shows "install E options w =
    (Inr \<lparr>success = True, installed = [],
          duration = clock E (Suc (ticks w)) - clock E (ticks w),
          error = None, result_metadata = None\<rparr>,
     w\<lparr>ticks := Suc (Suc (ticks w))\<rparr>)"
  using assms
  by (auto simp add: no_manifest_def determined_packages_def install_def install_try_def Date_now_def Let_def
        split: option.splits)

lemma install_caught:
  assumes "install_try E options (clock E (ticks w)) (or_else (opt_cwd options) ''/'')
             (w\<lparr>ticks := Suc (ticks w)\<rparr>) = (Inl e, w1)"
  shows "install E options w =
    (Inr \<lparr>success = False, installed = [],
          duration = clock E (ticks w1) - clock E (ticks w),
          error = Some (String_of_error e), result_metadata = None\<rparr>,
     w1\<lparr>ticks := Suc (ticks w1)\<rparr>)"
  using assms by (simp add: install_def Date_now_def)

lemma install_returns: "\<exists>r w'. install E options w = (Inr r, w')"
  by (simp add: install_def Date_now_def split: prod.splits sum.splits)


lemma fs_call_reliable:
  "fs_reliable E \<Longrightarrow> fs_call E op w = (None, w\<lparr>fs_ops := fs_ops w @ [op]\<rparr>)"
  by (simp add: fs_reliable_def fs_call_def)

lemma install_packages_reliable:
  "fs_reliable E \<Longrightarrow> fst (install_packages E path g w) = None"
  by (induction g arbitrary: w) (simp_all add: fs_call_reliable Let_def)

lemma createVirtualNodeModules_reliable:
  "fs_reliable E \<Longrightarrow> fst (createVirtualNodeModules E cwd g w) = None"
  by (simp add: createVirtualNodeModules_def fs_call_reliable install_packages_reliable Let_def)

lemma install_try_success:
  assumes "fs_reliable E" and "\<not> no_manifest E options"
    and "determined_packages E options \<noteq> []"
    and "cwd = or_else (opt_cwd options) ''/''"
  shows "\<exists>d m w'. install_try E options t cwd w =
           (Inr \<lparr>success = True, installed = [], duration = d, error = None,
                 result_metadata = Some m\<rparr>, w')"
proof -
  obtain g w1 where g: "resolveDependencies E (determined_packages E options) w = (g, w1)"
    by (cases "resolveDependencies E (determined_packages E options) w")
  obtain w2 where c: "createVirtualNodeModules E cwd g w1 = (None, w2)"
    using createVirtualNodeModules_reliable[OF assms(1), of cwd g w1]
    by (cases "createVirtualNodeModules E cwd g w1") simp
  show ?thesis
    using assms g c
    by (auto simp: install_try_def no_manifest_def determined_packages_def Let_def
          fs_call_reliable Date_now_def split: option.splits)
qed

lemma install_success:
  assumes "fs_reliable E" and "\<not> no_manifest E options"
    and "determined_packages E options \<noteq> []"
  shows "\<exists>d m w'. install E options w =
           (Inr \<lparr>success = True, installed = [], duration = d, error = None,
                 result_metadata = Some m\<rparr>, w')"
proof -
  obtain d m w' where "install_try E options (clock E (ticks w)) (or_else (opt_cwd options) ''/'')
       (w\<lparr>ticks := Suc (ticks w)\<rparr>) =
           (Inr \<lparr>success = True, installed = [], duration = d, error = None,
                 result_metadata = Some m\<rparr>, w')"
    using install_try_success[OF assms refl] by blast
  then show ?thesis by (simp add: install_def Date_now_def)
qed

lemma fs_reliable_env_of: "fs_reliable (env_of reg)"
  by (simp add: fs_reliable_def env_of_def)

lemma chain_graph:
  "Map_keys (fst (resolveDependencies chain_env [''pkg-a''] (snd (Date_now chain_env fresh)))) =
     [''pkg-a'', ''pkg-b'', ''pkg-c'']"
  by code_simp

section \<open>The fetch log\<close>

lemma fetched_Date_now [simp]: "fetched (snd (Date_now E w)) = fetched w"
  by (simp add: Date_now_def)

lemma fetched_valid_entry [simp]: "fetched (snd (valid_entry E k w)) = fetched w"
  by (auto simp: valid_entry_def Map_get_def isCacheValid_def Date_now_def
        split: option.splits prod.splits)

lemma fetched_cachePackage [simp]: "fetched (cachePackage E key d ex w) = fetched w"
  by (simp add: cachePackage_def Date_now_def)

lemma fetched_fetch [simp]:
  "fetched (snd (fetch E n w)) = fetched w @ [registryUrl @ ''/'' @ n]"
  by (simp add: fetch_def)

lemma fst_fetch: "fst (fetch E n w) =
   (case map_of (registry E) n of None \<Rightarrow> NotOk ''Not Found'' | Some r \<Rightarrow> r)"
  by (simp add: fetch_def)

lemma ticks_fetch [simp]: "ticks (snd (fetch E n w)) = ticks w"
  by (simp add: fetch_def)

section \<open>Invariants of the resolver loop\<close>

lemma resolve_loop_rule:
  assumes init: "I queue visited resolved w"
    and skip: "\<And>pkg q vis res w. I (pkg # q) vis res w \<Longrightarrow> pkg \<in> set vis \<Longrightarrow> I q vis res w"
    and hit: "\<And>pkg q vis res w d w'. I (pkg # q) vis res w \<Longrightarrow> pkg \<notin> set vis \<Longrightarrow>
        resolve_step E pkg w = (FromCache d, w') \<Longrightarrow> I q (vis @ [pkg]) (Map_set res pkg d) w'"
    and new: "\<And>pkg q vis res w pd ds w'. I (pkg # q) vis res w \<Longrightarrow> pkg \<notin> set vis \<Longrightarrow>
        resolve_step E pkg w = (Resolved pd ds, w') \<Longrightarrow>
        I (q @ ds) (vis @ [pkg]) (Map_set res pkg (PackageObject pd)) w'"
    and failed: "\<And>pkg q vis res w e w'. I (pkg # q) vis res w \<Longrightarrow> pkg \<notin> set vis \<Longrightarrow>
        resolve_step E pkg w = (Failed e, w') \<Longrightarrow> I q (vis @ [pkg]) res w'"
  shows "\<exists>vis'. I [] vis' (fst (resolve_loop E queue visited resolved w))
                 (snd (resolve_loop E queue visited resolved w))"
  using init skip hit new failed
proof (induction E queue visited resolved w rule: resolve_loop.induct)
  case (1 E visited resolved w)
  then show ?case by auto
next
  case (2 E pkg queue visited resolved w)
  note init = "2.prems"(1) and skip = "2.prems"(2) and hit = "2.prems"(3)
    and new = "2.prems"(4) and failed = "2.prems"(5)
  show ?case
  proof (cases "pkg \<in> set visited")
    case True
    have "I queue visited resolved w" by (rule skip[OF init True])
    from "2.IH"(1)[OF True this skip hit new failed] show ?thesis using True by simp
  next
    case False
    obtain out w' where s: "resolve_step E pkg w = (out, w')" by (cases "resolve_step E pkg w")
    show ?thesis
    proof (cases out)
      case (FromCache d)
      have s': "resolve_step E pkg w = (FromCache d, w')" using s FromCache by simp
      have i: "I queue (visited @ [pkg]) (Map_set resolved pkg d) w'"
        by (rule hit[OF init False s'])
      have "resolve_loop E (pkg # queue) visited resolved w =
            resolve_loop E queue (visited @ [pkg]) (Map_set resolved pkg d) w'"
        using False s' by simp
      then show ?thesis
        using "2.IH"(2)[OF False s[symmetric] FromCache i skip hit new failed] by simp
    next
      case (Resolved pd ds)
      have s': "resolve_step E pkg w = (Resolved pd ds, w')" using s Resolved by simp
      have i: "I (queue @ ds) (visited @ [pkg]) (Map_set resolved pkg (PackageObject pd)) w'"
        by (rule new[OF init False s'])
      have "resolve_loop E (pkg # queue) visited resolved w =
            resolve_loop E (queue @ ds) (visited @ [pkg])
              (Map_set resolved pkg (PackageObject pd)) w'"
        using False s' by simp
      then show ?thesis
        using "2.IH"(3)[OF False s[symmetric] Resolved i skip hit new failed] by simp
    next
      case (Failed e)
      have s': "resolve_step E pkg w = (Failed e, w')" using s Failed by simp
      have i: "I queue (visited @ [pkg]) resolved w'"
        by (rule failed[OF init False s'])
      have "resolve_loop E (pkg # queue) visited resolved w =
            resolve_loop E queue (visited @ [pkg]) resolved w'"
        using False s' by simp
      then show ?thesis
        using "2.IH"(4)[OF False s[symmetric] Failed i skip hit new failed] by simp
    qed
  qed
qed

lemma list_all_Map_set:
  "list_all P m \<Longrightarrow> P (k, v) \<Longrightarrow> list_all P (Map_set m k v)"
  by (induction m) auto

lemma cache_wf_ticks [simp]: "cache_wf (w\<lparr>ticks := t\<rparr>) = cache_wf w"
  by (simp add: cache_wf_def)

lemma cache_wf_cong: "cache w' = cache w \<Longrightarrow> cache_wf w' = cache_wf w"
  by (simp add: cache_wf_def)

lemma cache_wf_cachePackage:
  "cache_wf w \<Longrightarrow> entry_ok key d \<Longrightarrow> cache_wf (cachePackage E key d ex w)"
  by (simp add: cache_wf_def list_all_Map_set)

lemma cache_wf_lookup:
  assumes "cache_wf w" and "map_of (cache w) k = Some c"
  shows "entry_ok k (ce_data c)"
proof -
  have "(k, c) \<in> set (cache w)" using assms(2) by (rule map_of_SomeD)
  then show ?thesis using assms(1) by (auto simp: cache_wf_def list_all_iff)
qed

lemma cache_wf_fetchPackageMetadata:
  assumes "cache_wf w" shows "cache_wf (snd (fetchPackageMetadata E n w))"
proof (cases "valid_entry E (cacheKey n) w")
  case (Pair hit w1)
  have c1: "cache_wf w1"
    using cache_valid_entry[of E "cacheKey n" w] Pair assms cache_wf_cong[of w1 w] by simp
  show ?thesis
  proof (cases hit)
    case None
    have f: "cache_wf (snd (fetch E n w1))" using c1 cache_wf_cong[of "snd (fetch E n w1)" w1] by simp
    have "cache_wf (cachePackage E (cacheKey n) (JsonBytes m) ex
                     (snd (Date_now E (snd (Date_now E (snd (fetch E n w1)))))))" for m ex
      using f by (intro cache_wf_cachePackage) (simp_all add: Date_now_def entry_ok_def)
    then show ?thesis using Pair None f
      by (simp add: fetchPackageMetadata_miss split: fetch_response.splits)
  next
    case (Some c)
    then show ?thesis using Pair c1 by (simp add: fetchPackageMetadata_hit)
  qed
qed

lemma resolve_step_wf:
  assumes "cache_wf w" and "resolve_step E pkg w = (out, w')"
  shows "cache_wf w'"
    and "\<And>d. out = FromCache d \<Longrightarrow> entry_ok pkg d"
    and "\<And>pd ds. out = Resolved pd ds \<Longrightarrow> entry_ok pkg (PackageObject pd)"
proof -
  have "cache_wf w' \<and> (\<forall>d. out = FromCache d \<longrightarrow> entry_ok pkg d) \<and>
        (\<forall>pd ds. out = Resolved pd ds \<longrightarrow> entry_ok pkg (PackageObject pd))"
  proof (cases E pkg w rule: resolve_step_cases)
    case (hit c w1)
    have "cache_wf w1"
      using cache_valid_entry[of E pkg w] hit(1) assms(1) cache_wf_cong[of w1 w] by simp
    moreover have "entry_ok pkg (ce_data c)"
      using cache_wf_lookup[OF assms(1)] valid_entry_Some[of E pkg w c] hit(1) by simp
    ultimately show ?thesis using hit(2) assms(2) by auto
  next
    case (fetch_failed w1 e w2)
    have "cache_wf w1"
      using cache_valid_entry[of E pkg w] fetch_failed(1) assms(1) cache_wf_cong[of w1 w] by simp
    then have "cache_wf w2" using cache_wf_fetchPackageMetadata[of w1 E pkg] fetch_failed(2) by simp
    then show ?thesis using fetch_failed(3) assms(2) by auto
  next
    case (no_version w1 m w2 e)
    have "cache_wf w1"
      using cache_valid_entry[of E pkg w] no_version(1) assms(1) cache_wf_cong[of w1 w] by simp
    then have "cache_wf w2" using cache_wf_fetchPackageMetadata[of w1 E pkg] no_version(2) by simp
    then show ?thesis using no_version(4) assms(2) by auto
  next
    case (resolved w1 m w2 version vi)
    have "cache_wf w1"
      using cache_valid_entry[of E pkg w] resolved(1) assms(1) cache_wf_cong[of w1 w] by simp
    then have "cache_wf w2" using cache_wf_fetchPackageMetadata[of w1 E pkg] resolved(2) by simp
    then show ?thesis using resolved(4) assms(2)
      by (auto intro!: cache_wf_cachePackage simp: entry_ok_def)
  qed
  then show "cache_wf w'"
    and "\<And>d. out = FromCache d \<Longrightarrow> entry_ok pkg d"
    and "\<And>pd ds. out = Resolved pd ds \<Longrightarrow> entry_ok pkg (PackageObject pd)"
    by auto
qed

lemma distinct_Map_set: "distinct (map fst m) \<Longrightarrow> distinct (map fst (Map_set m k v))"
  by (simp add: Map_keys_Map_set)

lemma resolve_loop_wf:
  assumes "cache_wf w" and "graph_wf resolved" and "distinct (map fst resolved)"
  shows "graph_wf (fst (resolve_loop E queue visited resolved w)) \<and>
         distinct (map fst (fst (resolve_loop E queue visited resolved w))) \<and>
         cache_wf (snd (resolve_loop E queue visited resolved w))"
proof -
  define I where "I = (\<lambda>(q :: string list) (vis :: string list) res w.
      cache_wf w \<and> graph_wf res \<and> distinct (map fst res))"
  have "\<exists>vis'. I [] vis' (fst (resolve_loop E queue visited resolved w))
                 (snd (resolve_loop E queue visited resolved w))"
  proof (rule resolve_loop_rule[where I = I])
    show "I queue visited resolved w" using assms by (simp add: I_def)
  next
    fix pkg q vis res w
    assume "I (pkg # q) vis res w"
    then show "I q vis res w" by (simp add: I_def)
  next
    fix pkg q vis res w d w'
    assume "I (pkg # q) vis res w" "resolve_step E pkg w = (FromCache d, w')"
    then show "I q (vis @ [pkg]) (Map_set res pkg d) w'"
      using resolve_step_wf[of w E pkg "FromCache d" w']
      by (simp add: I_def graph_wf_def list_all_Map_set distinct_Map_set)
  next
    fix pkg q vis res w pd ds w'
    assume "I (pkg # q) vis res w" "resolve_step E pkg w = (Resolved pd ds, w')"
    then show "I (q @ ds) (vis @ [pkg]) (Map_set res pkg (PackageObject pd)) w'"
      using resolve_step_wf[of w E pkg "Resolved pd ds" w']
      by (simp add: I_def graph_wf_def list_all_Map_set distinct_Map_set)
  next
    fix pkg q vis res w e w'
    assume "I (pkg # q) vis res w" "resolve_step E pkg w = (Failed e, w')"
    then show "I q (vis @ [pkg]) res w'"
      using resolve_step_wf(1)[of w E pkg "Failed e" w']
      by (simp add: I_def)
  qed
  then show ?thesis by (simp add: I_def)
qed

lemma resolve_loop_drop_duplicate:
  "p \<in> set visited \<union> set q1 \<Longrightarrow>
   resolve_loop E (q1 @ p # q2) visited resolved w = resolve_loop E (q1 @ q2) visited resolved w"
proof (induction E "q1 @ q2" visited resolved w arbitrary: q1 q2 rule: resolve_loop.induct)
  case (1 E visited resolved w)
  then show ?case by simp
next
  case (2 E pkg queue visited resolved w)
  show ?case
  proof (cases q1)
    case Nil
    then show ?thesis using 2(5,6) by simp
  next
    case (Cons a q1')
    then have a: "a = pkg" and q: "queue = q1' @ q2" using 2(5) by simp_all
    show ?thesis
    proof (cases "pkg \<in> set visited")
      case True
      have "p \<in> set visited \<union> set q1'" using 2(6) Cons a True by auto
      from 2(1)[OF True q this] show ?thesis using Cons a True by simp
    next
      case False
      obtain out w' where s: "resolve_step E pkg w = (out, w')" by (cases "resolve_step E pkg w")
      have p: "p \<in> set (visited @ [pkg]) \<union> set q1'" using 2(6) Cons a by auto
      show ?thesis
      proof (cases out)
        case (FromCache d)
        from 2(2)[OF False s[symmetric] FromCache q p]
        show ?thesis using Cons a False s FromCache by simp
      next
        case (Resolved pd ds)
        have "queue @ ds = q1' @ (q2 @ ds)" using q by simp
        from 2(3)[OF False s[symmetric] Resolved this p]
        show ?thesis using Cons a False s Resolved by simp
      next
        case (Failed e)
        from 2(4)[OF False s[symmetric] Failed q p]
        show ?thesis using Cons a False s Failed by simp
      qed
    qed
  qed
qed

section \<open>Well-formed graphs and the lockfile\<close>

lemma resolveDependencies_wf:
  assumes "cache_wf w"
  shows "graph_wf (fst (resolveDependencies E packages w))"
    and "distinct (map fst (fst (resolveDependencies E packages w)))"
    and "cache_wf (snd (resolveDependencies E packages w))"
  using resolve_loop_wf[OF assms, of "[]" E packages "[]"]
  by (simp_all add: resolveDependencies_def graph_wf_def)

lemma cache_wf_fresh: "cache_wf fresh"
  by (simp add: cache_wf_def fresh_def)

lemma cache_install_packages [simp]:
  "cache (snd (install_packages E path g w)) = cache w"
  by (induction g arbitrary: w)
     (simp_all add: fs_call_def Let_def split: option.splits prod.splits)

lemma cache_createVirtualNodeModules [simp]:
  "cache (snd (createVirtualNodeModules E cwd g w)) = cache w"
  by (simp add: createVirtualNodeModules_def fs_call_def Let_def split: option.splits)

lemma cache_wf_install:
  assumes "cache_wf w" shows "cache_wf (snd (install E options w))"
proof -
  let ?w0 = "w\<lparr>ticks := Suc (ticks w)\<rparr>"
  let ?ps = "determined_packages E options"
  have r: "cache_wf (snd (resolveDependencies E ?ps ?w0))"
    using resolveDependencies_wf(3)[of ?w0 E ?ps] assms by simp
  have "cache (snd (install E options w)) = cache w \<or>
        cache (snd (install E options w)) = cache (snd (resolveDependencies E ?ps ?w0))"
    by (auto simp: install_def install_try_def determined_packages_def Date_now_def Let_def
          fs_call_def
          split: prod.splits sum.splits option.splits
          dest: arg_cong[where f = "\<lambda>x. cache (snd x)"])
  then show ?thesis using r assms by (auto simp: cache_wf_def)
qed

lemma graph_wf_name:
  assumes "graph_wf g" and "e \<in> set g" and "data_name (snd e) = Some n"
  shows "fst e = n"
proof -
  have "entry_ok (fst e) (snd e)" using assms(1,2) by (auto simp: graph_wf_def list_all_iff)
  then show ?thesis using assms(3) by (cases "snd e") (auto simp: entry_ok_def)
qed

lemma lockfile_loop_fields:
  "lf_name (lockfile_loop g lf) = lf_name lf \<and>
   lf_version (lockfile_loop g lf) = lf_version lf \<and>
   lf_lockfileVersion (lockfile_loop g lf) = lf_lockfileVersion lf"
  by (induction g arbitrary: lf) (simp_all add: Let_def)

lemma entry_ok_integrity: "entry_ok k d \<Longrightarrow> data_integrity d = None"
  by (cases d) (simp_all add: entry_ok_def)

lemma list_all_insert_index:
  "list_all P props \<Longrightarrow> P (k, v) \<Longrightarrow> list_all P (insert_index i k v props)"
  by (induction props) (auto split: option.splits)

lemma list_all_Object_assign:
  "list_all P props \<Longrightarrow> P (k, v) \<Longrightarrow> list_all P (Object_assign props k v)"
  by (simp add: Object_assign_def list_all_Map_set list_all_insert_index split: option.splits)

lemma lockfile_loop_integrity:
  assumes "graph_wf g"
    and "list_all (\<lambda>kv. le_integrity (snd kv) = ''sha512-unknown'') (lf_packages lf)"
  shows "list_all (\<lambda>kv. le_integrity (snd kv) = ''sha512-unknown'')
           (lf_packages (lockfile_loop g lf))"
  using assms
proof (induction g arbitrary: lf)
  case Nil
  then show ?case by simp
next
  case (Cons entry rest)
  have "entry_ok (fst entry) (snd entry)" and r: "graph_wf rest"
    using Cons.prems(1) by (simp_all add: graph_wf_def)
  then have "data_integrity (snd entry) = None" using entry_ok_integrity by blast
  then show ?case using Cons.prems(2) r
    by (simp add: Let_def) (rule Cons.IH, simp_all add: list_all_Object_assign or_else_def)
qed

section \<open>The shape of the lockfile\<close>

lemma Map_set_fresh: "k \<notin> fst ` set m \<Longrightarrow> Map_set m k v = m @ [(k, v)]"
  by (induction m) auto

lemma keys_Map_set: "fst ` set (Map_set m k v) = insert k (fst ` set m)"
  by (induction m) auto

lemma map_of_insert_index:
  "k \<notin> fst ` set props \<Longrightarrow> map_of (insert_index i k v props) = (map_of props)(k \<mapsto> v)"
  by (induction props) (auto simp: fun_eq_iff split: option.splits)

lemma map_of_Object_assign:
  "map_of (Object_assign props k v) =
     (if k = ''__proto__'' then map_of props else (map_of props)(k \<mapsto> v))"
proof (cases "k \<in> fst ` set props")
  case True
  then show ?thesis by (simp add: Object_assign_def map_of_Map_set)
next
  case False
  then have "map_of props k = None" by (simp add: map_of_eq_None_iff)
  then have "map_of (props @ [(k, v)]) = (map_of props)(k \<mapsto> v)"
    by (auto simp: fun_eq_iff map_add_def split: option.splits)
  then show ?thesis using False
    by (simp add: Object_assign_def map_of_insert_index split: option.splits)
qed

lemma keys_insert_index: "fst ` set (insert_index i k v props) = insert k (fst ` set props)"
  by (induction props) (auto split: option.splits)

lemma keys_Object_assign:
  "fst ` set (Object_assign props k v) =
     (if k = ''__proto__'' then fst ` set props else insert k (fst ` set props))"
  by (auto simp: Object_assign_def keys_Map_set keys_insert_index split: option.splits)

lemma lockfile_loop_step:
  "lockfile_loop (entry # rest) lf =
     lockfile_loop rest
       (lf\<lparr>lf_packages := Object_assign (lf_packages lf) (''node_modules/'' @ fst entry)
                               (lock_entry_of (snd entry)),
           lf_dependencies := Object_assign (lf_dependencies lf) (fst entry)
                               (data_version (snd entry))\<rparr>)"
  by (simp add: Let_def lock_entry_of_def)

text \<open>
  The two objects of the lockfile as finite maps: the assignments of the loop, the later
  ones over the earlier ones, without the assignments to \<open>__proto__\<close>.
\<close>

lemma lockfile_loop_maps:
  "map_of (lf_packages (lockfile_loop g lf)) =
     map_of (lf_packages lf) ++
     map_of (rev (map (\<lambda>kv. (''node_modules/'' @ fst kv, lock_entry_of (snd kv))) g)) \<and>
   map_of (lf_dependencies (lockfile_loop g lf)) =
     map_of (lf_dependencies lf) ++
     map_of (rev (map (\<lambda>kv. (fst kv, data_version (snd kv)))
                   (filter (\<lambda>kv. fst kv \<noteq> ''__proto__'') g)))"
proof (induction g arbitrary: lf)
  case Nil
  then show ?case by simp
next
  case (Cons entry rest)
  let ?lf = "lf\<lparr>lf_packages := Object_assign (lf_packages lf) (''node_modules/'' @ fst entry)
                               (lock_entry_of (snd entry)),
           lf_dependencies := Object_assign (lf_dependencies lf) (fst entry)
                               (data_version (snd entry))\<rparr>"
  have p: "map_of (lf_packages ?lf) =
           (map_of (lf_packages lf))(''node_modules/'' @ fst entry \<mapsto> lock_entry_of (snd entry))"
    by (simp add: map_of_Object_assign)
  have d: "map_of (lf_dependencies ?lf) =
           (if fst entry = ''__proto__'' then map_of (lf_dependencies lf)
            else (map_of (lf_dependencies lf))(fst entry \<mapsto> data_version (snd entry)))"
    by (simp add: map_of_Object_assign)
  have "map_of (lf_packages (lockfile_loop (entry # rest) lf)) =
        map_of (lf_packages ?lf) ++
        map_of (rev (map (\<lambda>kv. (''node_modules/'' @ fst kv, lock_entry_of (snd kv))) rest))"
    unfolding lockfile_loop_step using Cons.IH[of ?lf] by blast
  then have a: "map_of (lf_packages (lockfile_loop (entry # rest) lf)) =
     map_of (lf_packages lf) ++
     map_of (rev (map (\<lambda>kv. (''node_modules/'' @ fst kv, lock_entry_of (snd kv))) (entry # rest)))"
    unfolding p by (simp add: map_add_upd_left fun_eq_iff map_add_def split: option.splits)
  have "map_of (lf_dependencies (lockfile_loop (entry # rest) lf)) =
        map_of (lf_dependencies ?lf) ++
        map_of (rev (map (\<lambda>kv. (fst kv, data_version (snd kv)))
                   (filter (\<lambda>kv. fst kv \<noteq> ''__proto__'') rest)))"
    unfolding lockfile_loop_step using Cons.IH[of ?lf] by blast
  then have b: "map_of (lf_dependencies (lockfile_loop (entry # rest) lf)) =
     map_of (lf_dependencies lf) ++
     map_of (rev (map (\<lambda>kv. (fst kv, data_version (snd kv)))
                   (filter (\<lambda>kv. fst kv \<noteq> ''__proto__'') (entry # rest))))"
    unfolding d by (simp add: fun_eq_iff map_add_def split: option.splits)
  show ?case using a b by blast
qed

lemma map_of_same_entries:
  assumes "distinct (map fst g1)" and "distinct (map fst g2)" and "set g1 = set g2"
    and "inj f"
  shows "map_of (rev (map (\<lambda>kv. (f (fst kv), h (snd kv))) (filter P g1))) =
         map_of (rev (map (\<lambda>kv. (f (fst kv), h (snd kv))) (filter P g2)))"
proof -
  have "distinct (map fst (rev (map (\<lambda>kv. (f (fst kv), h (snd kv))) (filter P g))))"
    if "distinct (map fst g)" for g
  proof -
    have "distinct (map fst (filter P g))" using that by (rule distinct_map_filter)
    then have "distinct (map f (map fst (filter P g)))"
      using assms(4) by (simp add: distinct_map inj_on_def inj_def del: map_map)
    moreover have "map fst (rev (map (\<lambda>kv. (f (fst kv), h (snd kv))) (filter P g))) =
          rev (map f (map fst (filter P g)))" by (simp add: rev_map)
    ultimately show ?thesis by (simp del: map_map)
  qed
  moreover have "set (rev (map (\<lambda>kv. (f (fst kv), h (snd kv))) (filter P g1))) =
                 set (rev (map (\<lambda>kv. (f (fst kv), h (snd kv))) (filter P g2)))"
    using assms(3) by simp
  ultimately show ?thesis using assms(1,2) by (simp only: map_of_inject_set)
qed

lemma generateLockfile_fields:
  "lf_name (generateLockfile g) = ''atiq-generated-lock''"
  "lf_version (generateLockfile g) = ''1.0.0''"
  "lf_lockfileVersion (generateLockfile g) = 1"
  by (simp_all add: generateLockfile_def lockfile_loop_fields)

lemma generateLockfile_maps:
  "map_of (lf_packages (generateLockfile g)) =
     map_of (rev (map (\<lambda>kv. (''node_modules/'' @ fst kv, lock_entry_of (snd kv)))
                   (filter (\<lambda>kv. True) g)))"
  "map_of (lf_dependencies (generateLockfile g)) =
     map_of (rev (map (\<lambda>kv. (fst kv, data_version (snd kv)))
                   (filter (\<lambda>kv. fst kv \<noteq> ''__proto__'') g)))"
  using lockfile_loop_maps[of g "\<lparr>lf_name = ''atiq-generated-lock'', lf_version = ''1.0.0'',
        lf_lockfileVersion = 1, lf_packages = [], lf_dependencies = []\<rparr>"]
  by (simp_all add: generateLockfile_def)

section \<open>Resolution from a cache that is consistent with the registry\<close>

lemma plain_registry_cacheKey:
  assumes "plain_registry E" shows "cacheKey x \<notin> fst ` set (registry E)"
proof
  assume "cacheKey x \<in> fst ` set (registry E)"
  then have "take 9 (cacheKey x) \<noteq> ''metadata:''"
    using assms by (auto simp: plain_registry_def list_all_iff)
  then show False by (simp add: cacheKey_def)
qed

lemma resolvable_in_registry: "resolvable E n \<Longrightarrow> n \<in> fst ` set (registry E)"
  by (auto simp: resolvable_def registry_version_def split: option.splits
        dest!: map_of_SomeD intro: rev_image_eqI)

lemma not_resolvable_deps: "\<not> resolvable E n \<Longrightarrow> registry_deps E n = []"
  by (cases "registry_version E n") (simp_all add: resolvable_def registry_deps_def)

lemma plain_registry_not_resolvable: "plain_registry E \<Longrightarrow> \<not> resolvable E (cacheKey x)"
  using plain_registry_cacheKey resolvable_in_registry by blast

lemma valid_entry_absent: "map_of (cache w) k = None \<Longrightarrow> valid_entry E k w = (None, w)"
  by (simp add: valid_entry_def Map_get_def)

lemma fst_image_insert_keys: "fst ` set (Map_set m k v) = insert k (fst ` set m)"
  by (induction m) auto

lemma registry_metadata_in: "registry_metadata E n = Some m \<Longrightarrow> n \<in> fst ` set (registry E)"
  by (auto simp: registry_metadata_def split: option.splits dest!: map_of_SomeD
        intro: rev_image_eqI)

lemma fetch_registry_metadata:
  "fst (fetch E n w) = OkJson m \<longleftrightarrow> registry_metadata E n = Some m"
  by (auto simp: fetch_def registry_metadata_def split: option.splits fetch_response.splits)

lemma registry_version_metadata:
  "registry_version E n =
     (case registry_metadata E n of
        None \<Rightarrow> None
      | Some m \<Rightarrow> (case select_version n m of Inl e \<Rightarrow> None | Inr vv \<Rightarrow> Some vv))"
  by (simp add: registry_version_def registry_metadata_def
        split: option.splits fetch_response.splits)

lemma cache_consistent_cong: "cache w' = cache w \<Longrightarrow> cache_consistent E w' = cache_consistent E w"
  by (simp add: cache_consistent_def)

lemma cache_consistent_lookup:
  assumes "cache_consistent E w" and "map_of (cache w) k = Some c"
  shows "slot_consistent E k c"
proof -
  have "(k, c) \<in> set (cache w)" using assms(2) by (rule map_of_SomeD)
  then show ?thesis using assms(1) by (auto simp: cache_consistent_def list_all_iff)
qed

lemma cache_consistent_cachePackage:
  assumes "cache_consistent E w"
    and "\<And>t. slot_consistent E key \<lparr>ce_key = key, ce_data = d, ce_timestamp = t, ce_expires = ex\<rparr>"
  shows "cache_consistent E (cachePackage E key d ex w)"
  using assms by (simp add: cache_consistent_def list_all_Map_set)

lemma cache_consistent_empty: "cache w = [] \<Longrightarrow> cache_consistent E w"
  by (simp add: cache_consistent_def)

lemma cache_consistent_fresh: "cache_consistent E fresh"
  by (simp add: cache_consistent_def fresh_def)

text \<open>
  What \<open>fetchPackageMetadata\<close> does to a consistent cache and what it returns from it.
\<close>

lemma fetchPackageMetadata_consistent:
  assumes c: "cache_consistent E w"
  shows "cache_consistent E (snd (fetchPackageMetadata E n w)) \<and>
         (\<forall>m. fst (fetchPackageMetadata E n w) = Inr m \<longrightarrow> registry_metadata E n = Some m) \<and>
         (\<forall>k. k \<notin> range cacheKey \<longrightarrow>
              map_of (cache (snd (fetchPackageMetadata E n w))) k = map_of (cache w) k)"
proof (cases "valid_entry E (cacheKey n) w")
  case (Pair hit w1)
  have c1: "cache w1 = cache w" using cache_valid_entry[of E "cacheKey n" w] Pair by simp
  show ?thesis
  proof (cases hit)
    case (Some s)
    have f: "fetchPackageMetadata E n w = (decode_parse (ce_data s), w1)"
      using Pair Some by (simp add: fetchPackageMetadata_hit)
    have "map_of (cache w) (cacheKey n) = Some s"
      using valid_entry_Some[of E "cacheKey n" w s] Pair Some by simp
    then have sc: "slot_consistent E (cacheKey n) s" by (rule cache_consistent_lookup[OF c])
    have "registry_metadata E n = Some m" if "decode_parse (ce_data s) = Inr m" for m
    proof -
      have "ce_data s = JsonBytes m" using that by (cases "ce_data s") auto
      then show ?thesis using sc by (auto simp: slot_consistent_def)
    qed
    then show ?thesis using f c c1 cache_consistent_cong[OF c1, of E] by simp
  next
    case None
    note miss = fetchPackageMetadata_miss[of E n w w1]
    show ?thesis
    proof (cases "fst (fetch E n w1)")
      case (OkJson md)
      let ?w2 = "cachePackage E (cacheKey n) (JsonBytes md)
          (Some (fst (Date_now E (snd (Date_now E (snd (fetch E n w1))))) + 5 * 60 * 1000))
          (snd (Date_now E (snd (Date_now E (snd (fetch E n w1))))))"
      have f: "fetchPackageMetadata E n w = (Inr md, ?w2)"
        using miss Pair None OkJson by simp
      have rm: "registry_metadata E n = Some md" using OkJson by (simp add: fetch_registry_metadata)
      have "cache_consistent E (snd (Date_now E (snd (Date_now E (snd (fetch E n w1))))))"
        using c c1 by (simp add: cache_consistent_def)
      then have "cache_consistent E ?w2"
      proof (rule cache_consistent_cachePackage)
        fix t
        show "slot_consistent E (cacheKey n)
                \<lparr>ce_key = cacheKey n, ce_data = JsonBytes md, ce_timestamp = t,
                 ce_expires = Some (fst (Date_now E (snd (Date_now E (snd (fetch E n w1)))))
                                    + 5 * 60 * 1000)\<rparr>"
          using rm registry_metadata_in[OF rm] by (auto simp: slot_consistent_def)
      qed
      moreover have "map_of (cache ?w2) k = map_of (cache w) k" if "k \<notin> range cacheKey" for k
      proof -
        have "k \<noteq> cacheKey n" using that by auto
        then show ?thesis using c1 by (simp add: map_of_Map_set)
      qed
      ultimately show ?thesis using f rm by simp
    next
      case (NetworkFailure e)
      then have "fetchPackageMetadata E n w = (Inl e, snd (fetch E n w1))"
        using miss Pair None by simp
      then show ?thesis using c c1 by (simp add: cache_consistent_def)
    next
      case (NotOk statusText)
      then have "fetchPackageMetadata E n w =
        (Inl (Error (''Failed to fetch package metadata: '' @ statusText)), snd (fetch E n w1))"
        using miss Pair None by simp
      then show ?thesis using c c1 by (simp add: cache_consistent_def)
    next
      case (BadBody e)
      then have "fetchPackageMetadata E n w = (Inl e, snd (fetch E n w1))"
        using miss Pair None by simp
      then show ?thesis using c c1 by (simp add: cache_consistent_def)
    qed
  qed
qed

lemma fetchPackageMetadata_complete:
  assumes h: "plain_registry E" and c: "cache_consistent E w"
    and rm: "registry_metadata E n = Some m"
  shows "fst (fetchPackageMetadata E n w) = Inr m"
proof (cases "valid_entry E (cacheKey n) w")
  case (Pair hit w1)
  show ?thesis
  proof (cases hit)
    case (Some s)
    have "map_of (cache w) (cacheKey n) = Some s"
      using valid_entry_Some[of E "cacheKey n" w s] Pair Some by simp
    then have sc: "slot_consistent E (cacheKey n) s" by (rule cache_consistent_lookup[OF c])
    have "ce_data s = JsonBytes m"
    proof (cases "ce_data s")
      case (PackageObject p)
      then have "resolvable E (cacheKey n)" using sc by (simp add: slot_consistent_def)
      then show ?thesis using plain_registry_not_resolvable[OF h] by blast
    next
      case (JsonBytes m')
      then have "registry_metadata E n = Some m'" using sc by (auto simp: slot_consistent_def)
      then show ?thesis using rm JsonBytes by simp
    qed
    then show ?thesis using Pair Some by (simp add: fetchPackageMetadata_hit)
  next
    case None
    have "fst (fetch E n w1) = OkJson m" using rm by (simp add: fetch_registry_metadata)
    then show ?thesis using Pair None by (simp add: fetchPackageMetadata_miss)
  qed
qed

text \<open>One iteration of the loop on a consistent cache.\<close>

lemma resolve_step_consistent:
  assumes c: "cache_consistent E w" and s: "resolve_step E pkg w = (out, w')"
  shows "cache_consistent E w' \<and>
         (\<forall>k. k \<notin> range cacheKey \<and> k \<noteq> pkg \<longrightarrow> map_of (cache w') k = map_of (cache w) k) \<and>
         (\<forall>d. out = FromCache d \<longrightarrow>
              (\<exists>s. map_of (cache w) pkg = Some s \<and> d = ce_data s)) \<and>
         (\<forall>pd ds. out = Resolved pd ds \<longrightarrow> resolvable E pkg \<and> ds = registry_deps E pkg)"
proof (cases E pkg w rule: resolve_step_cases)
  case (hit s w1)
  have "cache w1 = cache w" using cache_valid_entry[of E pkg w] hit(1) by simp
  moreover have "map_of (cache w) pkg = Some s"
    using valid_entry_Some[of E pkg w s] hit(1) by simp
  ultimately show ?thesis using hit(2) s c by (auto simp: cache_consistent_def)
next
  case (fetch_failed w1 e w2)
  have c1: "cache w1 = cache w" using cache_valid_entry[of E pkg w] fetch_failed(1) by simp
  then have "cache_consistent E w1" using c by (simp add: cache_consistent_def)
  from fetchPackageMetadata_consistent[OF this, of pkg]
  show ?thesis using fetch_failed(2,3) s c1 by auto
next
  case (no_version w1 m w2 e)
  have c1: "cache w1 = cache w" using cache_valid_entry[of E pkg w] no_version(1) by simp
  then have "cache_consistent E w1" using c by (simp add: cache_consistent_def)
  from fetchPackageMetadata_consistent[OF this, of pkg]
  show ?thesis using no_version(2,4) s c1 by auto
next
  case (resolved w1 m w2 version vi)
  have c1: "cache w1 = cache w" using cache_valid_entry[of E pkg w] resolved(1) by simp
  then have "cache_consistent E w1" using c by (simp add: cache_consistent_def)
  from fetchPackageMetadata_consistent[OF this, of pkg]
  have c2: "cache_consistent E w2" and rm: "registry_metadata E pkg = Some m"
    and k2: "\<And>k. k \<notin> range cacheKey \<Longrightarrow> map_of (cache w2) k = map_of (cache w) k"
    using resolved(2) c1 by auto
  have rv: "registry_version E pkg = Some (version, vi)"
    using rm resolved(3) by (simp add: registry_version_metadata)
  then have r: "resolvable E pkg" and d: "registry_deps E pkg = map fst (packageDeps vi)"
    by (simp_all add: resolvable_def registry_deps_def)
  let ?pd = "\<lparr>pd_name = pkg, pd_version = version, pd_tarball = vi_tarball vi,
              pd_dependencies = packageDeps vi, pd_resolved = clock E (ticks w2),
              pd_main = None, pd_exports = None, pd_integrity = None\<rparr>"
  let ?w3 = "cachePackage E pkg (PackageObject ?pd) None (w2\<lparr>ticks := Suc (ticks w2)\<rparr>)"
  have o: "out = Resolved ?pd (map fst (packageDeps vi))" and w': "w' = ?w3"
    using resolved(4) s by simp_all
  have "cache_consistent E (w2\<lparr>ticks := Suc (ticks w2)\<rparr>)"
    using c2 by (simp add: cache_consistent_def)
  then have "cache_consistent E ?w3"
    by (rule cache_consistent_cachePackage) (simp add: slot_consistent_def r)
  moreover have "map_of (cache ?w3) k = map_of (cache w) k"
    if "k \<notin> range cacheKey" "k \<noteq> pkg" for k
    using that k2[of k] by (simp add: map_of_Map_set)
  ultimately show ?thesis using o w' r d by simp
qed

lemma resolve_step_complete:
  assumes h: "plain_registry E" and c: "cache_consistent E w"
    and r: "resolvable E pkg"
  shows "fst (resolve_step E pkg w) \<noteq> Failed e"
proof (cases E pkg w rule: resolve_step_cases)
  case (hit s w1)
  then show ?thesis by simp
next
  case (fetch_failed w1 e' w2)
  obtain m where rm: "registry_metadata E pkg = Some m"
    using r by (auto simp: resolvable_def registry_version_metadata split: option.splits)
  have "cache w1 = cache w" using cache_valid_entry[of E pkg w] fetch_failed(1) by simp
  then have "cache_consistent E w1" using c by (simp add: cache_consistent_def)
  from fetchPackageMetadata_complete[OF h this rm] show ?thesis using fetch_failed(2) by simp
next
  case (no_version w1 m w2 e')
  have "cache w1 = cache w" using cache_valid_entry[of E pkg w] no_version(1) by simp
  then have "cache_consistent E w1" using c by (simp add: cache_consistent_def)
  from fetchPackageMetadata_consistent[OF this, of pkg]
  have "registry_metadata E pkg = Some m" using no_version(2) by simp
  then have "\<not> resolvable E pkg"
    using no_version(3) by (simp add: resolvable_def registry_version_metadata)
  then show ?thesis using r by simp
next
  case (resolved w1 m w2 version vi)
  then show ?thesis by simp
qed

lemma resolve_loop_distinct:
  assumes "distinct (map fst resolved)"
  shows "distinct (map fst (fst (resolve_loop E queue visited resolved w)))"
proof -
  define I where "I = (\<lambda>(q :: string list) (vis :: string list)
      (res :: (string \<times> cache_data) list) (w :: world). distinct (map fst res))"
  have "\<exists>vis'. I [] vis' (fst (resolve_loop E queue visited resolved w))
                 (snd (resolve_loop E queue visited resolved w))"
    by (rule resolve_loop_rule[where I = I]) (simp_all add: I_def assms distinct_Map_set)
  then show ?thesis by (simp add: I_def)
qed

lemma resolve_loop_consistent:
  assumes "cache_consistent E w"
  shows "cache_consistent E (snd (resolve_loop E queue visited resolved w))"
proof -
  define I where "I = (\<lambda>(q :: string list) (vis :: string list)
      (res :: (string \<times> cache_data) list) w. cache_consistent E w)"
  have "\<exists>vis'. I [] vis' (fst (resolve_loop E queue visited resolved w))
                 (snd (resolve_loop E queue visited resolved w))"
  proof (rule resolve_loop_rule[where I = I])
    show "I queue visited resolved w" using assms by (simp add: I_def)
  qed (use resolve_step_consistent in \<open>auto simp: I_def\<close>)
  then show ?thesis by (simp add: I_def)
qed

lemma resolveDependencies_consistent:
  "cache_consistent E w \<Longrightarrow> cache_consistent E (snd (resolveDependencies E packages w))"
  by (simp add: resolveDependencies_def resolve_loop_consistent)

lemma cache_consistent_install:
  assumes "cache_consistent E w" shows "cache_consistent E (snd (install E options w))"
proof -
  let ?w0 = "w\<lparr>ticks := Suc (ticks w)\<rparr>"
  let ?ps = "determined_packages E options"
  have "cache_consistent E ?w0" using assms by (simp add: cache_consistent_def)
  then have r: "cache_consistent E (snd (resolveDependencies E ?ps ?w0))"
    by (rule resolveDependencies_consistent)
  have "cache (snd (install E options w)) = cache w \<or>
        cache (snd (install E options w)) = cache (snd (resolveDependencies E ?ps ?w0))"
    by (auto simp: install_def install_try_def determined_packages_def Date_now_def Let_def
          fs_call_def
          split: prod.splits sum.splits option.splits
          dest: arg_cong[where f = "\<lambda>x. cache (snd x)"])
  then show ?thesis using r assms by (auto simp: cache_consistent_def)
qed

text \<open>The invariant of the loop.\<close>

lemma resolve_inv_hit:
  assumes h: "plain_registry E" and i: "resolve_inv E c0 ps (pkg # q) vis res w"
    and n: "pkg \<notin> set vis" and s: "resolve_step E pkg w = (FromCache d, w')"
  shows "resolve_inv E c0 ps q (vis @ [pkg]) (Map_set res pkg d) w'"
proof -
  have c: "cache_consistent E w" using i by (simp add: resolve_inv_def)
  from resolve_step_consistent[OF c s]
  have c': "cache_consistent E w'"
    and k: "\<And>k. k \<notin> range cacheKey \<Longrightarrow> k \<noteq> pkg \<Longrightarrow> map_of (cache w') k = map_of (cache w) k"
    and "\<exists>s. map_of (cache w) pkg = Some s \<and> d = ce_data s"
    by auto
  then obtain sl where sl: "map_of (cache w) pkg = Some sl" and d: "d = ce_data sl" by blast
  have sc: "slot_consistent E pkg sl" by (rule cache_consistent_lookup[OF c sl])
  have k6: "resolvable E pkg \<or> metadata_slot_name E pkg"
  proof (cases "ce_data sl")
    case (PackageObject p)
    then show ?thesis using sc by (simp add: slot_consistent_def)
  next
    case (JsonBytes m)
    then show ?thesis using sc by (auto simp: slot_consistent_def metadata_slot_name_def)
  qed
  have k4: "set (registry_deps E pkg) \<subseteq> set (vis @ [pkg]) \<union> set q" if "map_of c0 pkg = None"
  proof (cases "pkg \<in> range cacheKey")
    case True
    then have "\<not> resolvable E pkg" using plain_registry_not_resolvable[OF h] by auto
    then show ?thesis by (simp add: not_resolvable_deps)
  next
    case False
    then have "map_of (cache w) pkg = map_of c0 pkg" using i n by (simp add: resolve_inv_def)
    then show ?thesis using sl that by simp
  qed
  have a: "\<forall>k. k \<notin> set (vis @ [pkg]) \<and> k \<notin> range cacheKey \<longrightarrow> map_of (cache w') k = map_of c0 k"
    using i k by (auto simp: resolve_inv_def)
  have b: "\<forall>n \<in> set (vis @ [pkg]). resolvable E n \<longrightarrow> n \<in> fst ` set (Map_set res pkg d)"
    using i by (auto simp: resolve_inv_def fst_image_insert_keys)
  have e: "\<forall>n \<in> set (vis @ [pkg]). map_of c0 n = None \<longrightarrow>
             set (registry_deps E n) \<subseteq> set (vis @ [pkg]) \<union> set q"
  proof
    fix n assume "n \<in> set (vis @ [pkg])"
    then consider "n = pkg" | "n \<in> set vis" by auto
    then show "map_of c0 n = None \<longrightarrow> set (registry_deps E n) \<subseteq> set (vis @ [pkg]) \<union> set q"
    proof cases
      case 1
      then show ?thesis using k4 by simp
    next
      case 2
      then have "map_of c0 n = None \<longrightarrow> set (registry_deps E n) \<subseteq> set vis \<union> set (pkg # q)"
        using i by (simp add: resolve_inv_def)
      then show ?thesis by auto
    qed
  qed
  have f: "set ps \<subseteq> set (vis @ [pkg]) \<union> set q" using i by (auto simp: resolve_inv_def)
  have g: "\<forall>k \<in> fst ` set (Map_set res pkg d). resolvable E k \<or> metadata_slot_name E k"
    using i k6 by (auto simp: resolve_inv_def fst_image_insert_keys)
  show ?thesis unfolding resolve_inv_def using c' a b e f g by blast
qed

lemma resolve_inv_resolved:
  assumes h: "plain_registry E" and i: "resolve_inv E c0 ps (pkg # q) vis res w"
    and n: "pkg \<notin> set vis" and s: "resolve_step E pkg w = (Resolved pd ds, w')"
  shows "resolve_inv E c0 ps (q @ ds) (vis @ [pkg]) (Map_set res pkg (PackageObject pd)) w'"
proof -
  have c: "cache_consistent E w" using i by (simp add: resolve_inv_def)
  from resolve_step_consistent[OF c s]
  have c': "cache_consistent E w'"
    and k: "\<And>k. k \<notin> range cacheKey \<Longrightarrow> k \<noteq> pkg \<Longrightarrow> map_of (cache w') k = map_of (cache w) k"
    and r: "resolvable E pkg" and ds: "ds = registry_deps E pkg"
    by auto
  have a: "\<forall>k. k \<notin> set (vis @ [pkg]) \<and> k \<notin> range cacheKey \<longrightarrow> map_of (cache w') k = map_of c0 k"
    using i k by (auto simp: resolve_inv_def)
  have b: "\<forall>n \<in> set (vis @ [pkg]). resolvable E n \<longrightarrow>
             n \<in> fst ` set (Map_set res pkg (PackageObject pd))"
    using i by (auto simp: resolve_inv_def fst_image_insert_keys)
  have e: "\<forall>n \<in> set (vis @ [pkg]). map_of c0 n = None \<longrightarrow>
             set (registry_deps E n) \<subseteq> set (vis @ [pkg]) \<union> set (q @ ds)"
  proof
    fix n assume "n \<in> set (vis @ [pkg])"
    then consider "n = pkg" | "n \<in> set vis" by auto
    then show "map_of c0 n = None \<longrightarrow>
                 set (registry_deps E n) \<subseteq> set (vis @ [pkg]) \<union> set (q @ ds)"
    proof cases
      case 1
      then show ?thesis using ds by auto
    next
      case 2
      then have "map_of c0 n = None \<longrightarrow> set (registry_deps E n) \<subseteq> set vis \<union> set (pkg # q)"
        using i by (simp add: resolve_inv_def)
      then show ?thesis by auto
    qed
  qed
  have f: "set ps \<subseteq> set (vis @ [pkg]) \<union> set (q @ ds)" using i by (auto simp: resolve_inv_def)
  have g: "\<forall>k \<in> fst ` set (Map_set res pkg (PackageObject pd)).
             resolvable E k \<or> metadata_slot_name E k"
    using i r by (auto simp: resolve_inv_def fst_image_insert_keys)
  show ?thesis unfolding resolve_inv_def using c' a b e f g by blast
qed

lemma resolve_inv_failed:
  assumes h: "plain_registry E" and i: "resolve_inv E c0 ps (pkg # q) vis res w"
    and n: "pkg \<notin> set vis" and s: "resolve_step E pkg w = (Failed err, w')"
  shows "resolve_inv E c0 ps q (vis @ [pkg]) res w'"
proof -
  have c: "cache_consistent E w" using i by (simp add: resolve_inv_def)
  from resolve_step_consistent[OF c s]
  have c': "cache_consistent E w'"
    and k: "\<And>k. k \<notin> range cacheKey \<Longrightarrow> k \<noteq> pkg \<Longrightarrow> map_of (cache w') k = map_of (cache w) k"
    by auto
  have nr: "\<not> resolvable E pkg"
    using resolve_step_complete[OF h c, of pkg err] s by auto
  then have nd: "registry_deps E pkg = []" by (rule not_resolvable_deps)
  have a: "\<forall>k. k \<notin> set (vis @ [pkg]) \<and> k \<notin> range cacheKey \<longrightarrow> map_of (cache w') k = map_of c0 k"
    using i k by (auto simp: resolve_inv_def)
  have b: "\<forall>n \<in> set (vis @ [pkg]). resolvable E n \<longrightarrow> n \<in> fst ` set res"
    using i nr by (auto simp: resolve_inv_def)
  have e: "\<forall>n \<in> set (vis @ [pkg]). map_of c0 n = None \<longrightarrow>
             set (registry_deps E n) \<subseteq> set (vis @ [pkg]) \<union> set q"
  proof
    fix n assume "n \<in> set (vis @ [pkg])"
    then consider "n = pkg" | "n \<in> set vis" by auto
    then show "map_of c0 n = None \<longrightarrow> set (registry_deps E n) \<subseteq> set (vis @ [pkg]) \<union> set q"
    proof cases
      case 1
      then show ?thesis using nd by simp
    next
      case 2
      then have "map_of c0 n = None \<longrightarrow> set (registry_deps E n) \<subseteq> set vis \<union> set (pkg # q)"
        using i by (simp add: resolve_inv_def)
      then show ?thesis by auto
    qed
  qed
  have f: "set ps \<subseteq> set (vis @ [pkg]) \<union> set q" using i by (auto simp: resolve_inv_def)
  have g: "\<forall>k \<in> fst ` set res. resolvable E k \<or> metadata_slot_name E k"
    using i by (simp add: resolve_inv_def)
  show ?thesis unfolding resolve_inv_def using c' a b e f g by blast
qed

lemma resolve_closure:
  assumes h: "plain_registry E" and c: "cache_consistent E w"
  shows "\<exists>visited. resolve_inv E (cache w) packages [] visited
                      (fst (resolveDependencies E packages w))
                      (snd (resolveDependencies E packages w))"
  unfolding resolveDependencies_def
proof (rule resolve_loop_rule[where I = "resolve_inv E (cache w) packages"])
  show "resolve_inv E (cache w) packages packages [] [] w" using c by (simp add: resolve_inv_def)
next
  fix pkg q vis res w1
  assume "resolve_inv E (cache w) packages (pkg # q) vis res w1" "pkg \<in> set vis"
  then show "resolve_inv E (cache w) packages q vis res w1" by (auto simp: resolve_inv_def)
next
  fix pkg q vis res w1 d w'
  assume "resolve_inv E (cache w) packages (pkg # q) vis res w1" "pkg \<notin> set vis"
    "resolve_step E pkg w1 = (FromCache d, w')"
  then show "resolve_inv E (cache w) packages q (vis @ [pkg]) (Map_set res pkg d) w'"
    by (rule resolve_inv_hit[OF h])
next
  fix pkg q vis res w1 pd ds w'
  assume "resolve_inv E (cache w) packages (pkg # q) vis res w1" "pkg \<notin> set vis"
    "resolve_step E pkg w1 = (Resolved pd ds, w')"
  then show "resolve_inv E (cache w) packages (q @ ds) (vis @ [pkg])
               (Map_set res pkg (PackageObject pd)) w'"
    by (rule resolve_inv_resolved[OF h])
next
  fix pkg q vis res w1 e w'
  assume "resolve_inv E (cache w) packages (pkg # q) vis res w1" "pkg \<notin> set vis"
    "resolve_step E pkg w1 = (Failed e, w')"
  then show "resolve_inv E (cache w) packages q (vis @ [pkg]) res w'"
    by (rule resolve_inv_failed[OF h])
qed

lemma graph_keys_consistent:
  assumes "plain_registry E" and "cache_consistent E w"
    and "k \<in> set (Map_keys (fst (resolveDependencies E packages w)))"
  shows "resolvable E k \<or> metadata_slot_name E k"
proof -
  obtain visited where
    "resolve_inv E (cache w) packages [] visited (fst (resolveDependencies E packages w))
                      (snd (resolveDependencies E packages w))"
    using resolve_closure[OF assms(1,2)] by blast
  then show ?thesis using assms(3) by (auto simp: resolve_inv_def Map_keys_def)
qed

lemma enqueued_resolved:
  assumes "plain_registry E" and "cache_consistent E w"
    and "enqueued E w packages n" and "resolvable E n"
  shows "n \<in> set (Map_keys (fst (resolveDependencies E packages w)))"
proof -
  obtain visited where
    i: "resolve_inv E (cache w) packages [] visited (fst (resolveDependencies E packages w))
                      (snd (resolveDependencies E packages w))"
    using resolve_closure[OF assms(1,2)] by blast
  have "n \<in> set visited" using assms(3)
  proof (induction rule: enqueued.induct)
    case (requested p)
    then show ?case using i by (auto simp: resolve_inv_def)
  next
    case (pushed n d)
    then show ?case using i by (auto simp: resolve_inv_def)
  qed
  then show ?thesis using i assms(4) by (auto simp: resolve_inv_def Map_keys_def)
qed

lemma enqueued_cong:
  assumes "cache w' = cache w"
  shows "enqueued E w' packages n \<longleftrightarrow> enqueued E w packages n"
proof
  assume "enqueued E w' packages n"
  then show "enqueued E w packages n"
    by (induction rule: enqueued.induct) (auto intro: enqueued.intros simp: assms)
next
  assume "enqueued E w packages n"
  then show "enqueued E w' packages n"
    by (induction rule: enqueued.induct) (auto intro: enqueued.intros simp: assms)
qed

lemma enqueued_cold:
  assumes "cache w = []" and "reachable E packages n"
  shows "enqueued E w packages n"
  using assms(2)
  by (induction rule: reachable.induct) (auto intro: enqueued.intros simp: assms(1))

lemma enqueued_nonempty: "enqueued E w packages n \<Longrightarrow> packages \<noteq> []"
  by (induction rule: enqueued.induct) auto

section \<open>Bounded runs, cycles and the effects of a successful install\<close>

lemma resolve_bounded_terminates:
  "\<exists>fuel. resolve_bounded fuel E queue visited resolved w =
           Some (resolve_loop E queue visited resolved w)"
proof (induction E queue visited resolved w rule: resolve_loop.induct)
  case (1 E visited resolved w)
  show ?case by (rule exI[of _ 0]) simp
next
  case (2 E pkg queue visited resolved w)
  show ?case
  proof (cases "pkg \<in> set visited")
    case True
    from 2(1)[OF True] obtain fuel where
      "resolve_bounded fuel E queue visited resolved w = Some (resolve_loop E queue visited resolved w)"
      by blast
    then show ?thesis using True by (intro exI[of _ "Suc fuel"]) simp
  next
    case False
    obtain out w' where s: "resolve_step E pkg w = (out, w')" by (cases "resolve_step E pkg w")
    show ?thesis
    proof (cases out)
      case (FromCache d)
      from 2(2)[OF False s[symmetric] FromCache] obtain fuel where
        "resolve_bounded fuel E queue (visited @ [pkg]) (Map_set resolved pkg d) w' =
         Some (resolve_loop E queue (visited @ [pkg]) (Map_set resolved pkg d) w')" by blast
      then show ?thesis using False s FromCache by (intro exI[of _ "Suc fuel"]) simp
    next
      case (Resolved pd ds)
      from 2(3)[OF False s[symmetric] Resolved] obtain fuel where
        "resolve_bounded fuel E (queue @ ds) (visited @ [pkg])
           (Map_set resolved pkg (PackageObject pd)) w' =
         Some (resolve_loop E (queue @ ds) (visited @ [pkg])
           (Map_set resolved pkg (PackageObject pd)) w')" by blast
      then show ?thesis using False s Resolved by (intro exI[of _ "Suc fuel"]) simp
    next
      case (Failed e)
      from 2(4)[OF False s[symmetric] Failed] obtain fuel where
        "resolve_bounded fuel E queue (visited @ [pkg]) resolved w' =
         Some (resolve_loop E queue (visited @ [pkg]) resolved w')" by blast
      then show ?thesis using False s Failed by (intro exI[of _ "Suc fuel"]) simp
    qed
  qed
qed

lemma dep_path_suffix: "dep_path E (xs @ ys) \<Longrightarrow> dep_path E ys"
proof (induction xs)
  case Nil
  then show ?case by simp
next
  case (Cons a xs)
  then show ?case by (cases "xs @ ys") auto
qed

lemma dep_path_reachable:
  "dep_path E xs \<Longrightarrow> xs \<noteq> [] \<Longrightarrow> reachable E ps (hd xs) \<Longrightarrow> \<forall>n \<in> set xs. reachable E ps n"
proof (induction xs)
  case Nil
  then show ?case by simp
next
  case (Cons a xs)
  show ?case
  proof (cases xs)
    case Nil
    then show ?thesis using Cons.prems by simp
  next
    case (Cons b rest)
    have "reachable E ps b" using Cons.prems Cons by (auto intro: reachable.dependency)
    then show ?thesis using Cons.IH Cons.prems Cons by auto
  qed
qed

lemma dep_cycle_reachable:
  assumes "dep_cycle E cyc" and "c \<in> set cyc" and "reachable E ps c"
  shows "\<forall>n \<in> set cyc. reachable E ps n"
proof -
  have p: "dep_path E (cyc @ [hd cyc])" and ne: "cyc \<noteq> []"
    using assms(1) by (simp_all add: dep_cycle_def)
  obtain pre post where sp: "cyc = pre @ c # post" using assms(2) by (auto dest: split_list)
  have "dep_path E (pre @ (c # post @ [hd cyc]))" using p sp by simp
  then have "dep_path E (c # post @ [hd cyc])" by (rule dep_path_suffix)
  then have "\<forall>n \<in> set (c # post @ [hd cyc]). reachable E ps n"
    using assms(3) by (intro dep_path_reachable) simp_all
  then have "reachable E ps (hd cyc)" by simp
  then have "\<forall>n \<in> set (cyc @ [hd cyc]). reachable E ps n"
    using p ne by (intro dep_path_reachable) simp_all
  then show ?thesis by simp
qed

lemma dep_path_resolvable:
  "dep_path E (xs @ [z]) \<Longrightarrow> \<forall>n \<in> set xs. resolvable E n"
proof (induction xs)
  case Nil
  then show ?case by simp
next
  case (Cons a xs)
  obtain b rest where br: "xs @ [z] = b # rest" by (cases "xs @ [z]") auto
  then have b: "b \<in> set (registry_deps E a)" and p: "dep_path E (xs @ [z])"
    using Cons.prems by simp_all
  have "resolvable E a"
  proof (rule ccontr)
    assume "\<not> resolvable E a"
    then have "registry_deps E a = []" by (rule not_resolvable_deps)
    then show False using b by simp
  qed
  then show ?case using Cons.IH[OF p] by simp
qed

lemma dep_cycle_resolvable: "dep_cycle E cyc \<Longrightarrow> \<forall>n \<in> set cyc. resolvable E n"
  using dep_path_resolvable[of E cyc "hd cyc"] by (simp add: dep_cycle_def)

lemma count_list_distinct: "distinct xs \<Longrightarrow> x \<in> set xs \<Longrightarrow> count_list xs x = 1"
  by (induction xs) (auto simp: count_list_0_iff)

lemma cache_wf_empty: "cache w = [] \<Longrightarrow> cache_wf w"
  by (simp add: cache_wf_def)


lemma fs_ops_Date_now [simp]: "fs_ops (snd (Date_now E w)) = fs_ops w"
  by (simp add: Date_now_def)

lemma install_packages_ops:
  assumes "fs_reliable E"
  shows "set (fs_ops w) \<union> (\<lambda>k. Mkdir (path @ ''/'' @ k)) ` fst ` set g
           \<subseteq> set (fs_ops (snd (install_packages E path g w)))"
proof (induction g arbitrary: w)
  case Nil
  then show ?case by simp
next
  case (Cons entry rest)
  let ?w3 = "w\<lparr>fs_ops := fs_ops w @ [Mkdir (path @ ''/'' @ fst entry)] @
        [WriteFile ((path @ ''/'' @ fst entry) @ ''/package.json'')
           (JSON_stringify (packageJsonContent (snd entry)))] @
        [WriteFile ((path @ ''/'' @ fst entry) @ ''/index.js'') (generateIndexJS (snd entry))]\<rparr>"
  have "install_packages E path (entry # rest) w = install_packages E path rest ?w3"
    by (simp add: fs_call_reliable[OF assms] Let_def)
  then show ?case using Cons.IH[of ?w3] by auto
qed

lemma install_try_reliable:
  assumes "fs_reliable E" and "\<not> no_manifest E options"
    and "determined_packages E options \<noteq> []"
    and "cwd = or_else (opt_cwd options) ''/''"
  shows "\<exists>d m w'. install_try E options t cwd w =
           (Inr \<lparr>success = True, installed = [], duration = d, error = None,
                 result_metadata = Some m\<rparr>, w') \<and>
           (\<lambda>k. Mkdir ((cwd @ ''/node_modules'') @ ''/'' @ k)) `
              fst ` set (fst (resolveDependencies E (determined_packages E options) w))
             \<subseteq> set (fs_ops w')"
proof -
  obtain g w1 where g: "resolveDependencies E (determined_packages E options) w = (g, w1)"
    by (cases "resolveDependencies E (determined_packages E options) w")
  let ?w1' = "w1\<lparr>fs_ops := fs_ops w1 @ [Mkdir (cwd @ ''/node_modules'')]\<rparr>"
  let ?w2 = "snd (install_packages E (cwd @ ''/node_modules'') g ?w1')"
  have c: "createVirtualNodeModules E cwd g w1 = (None, ?w2)"
    using install_packages_reliable[OF assms(1), of "cwd @ ''/node_modules''" g ?w1']
    by (simp add: createVirtualNodeModules_def fs_call_reliable[OF assms(1)] Let_def prod_eq_iff)
  have ops: "(\<lambda>k. Mkdir ((cwd @ ''/node_modules'') @ ''/'' @ k)) ` fst ` set g
               \<subseteq> set (fs_ops ?w2)"
    using install_packages_ops[OF assms(1), of ?w1' "cwd @ ''/node_modules''" g] by simp
  let ?w3 = "?w2\<lparr>fs_ops := fs_ops ?w2 @
               [WriteFile (cwd @ ''/package-lock.json'') (lockfile_bytes g)]\<rparr>"
  have "install_try E options t cwd w =
           (Inr \<lparr>success = True, installed = [], duration = clock E (ticks ?w3) - t, error = None,
                 result_metadata = Some \<lparr>md_packages = length (determined_packages E options),
                    md_resolved = 0,
                    md_fromCache = getCacheHitCount g (?w3\<lparr>ticks := Suc (ticks ?w3)\<rparr>)\<rparr>\<rparr>,
            ?w3\<lparr>ticks := Suc (ticks ?w3)\<rparr>)"
    using assms(2,3) g c
    by (auto simp: install_try_def no_manifest_def determined_packages_def Let_def assms(4)
          fs_call_reliable[OF assms(1)] Date_now_def split: option.splits)
  moreover have "(\<lambda>k. Mkdir ((cwd @ ''/node_modules'') @ ''/'' @ k)) ` fst ` set g
               \<subseteq> set (fs_ops (?w3\<lparr>ticks := Suc (ticks ?w3)\<rparr>))"
    using ops by auto
  ultimately show ?thesis using g by auto
qed

lemma install_reliable:
  assumes "fs_reliable E" and "opt_packages options = Some packages" and "packages \<noteq> []"
  shows "\<exists>r w'. install E options w = (Inr r, w') \<and> success r \<and> error r = None \<and>
           (\<lambda>k. Mkdir ((or_else (opt_cwd options) ''/'' @ ''/node_modules'') @ ''/'' @ k)) `
              fst ` set (fst (resolveDependencies E packages (snd (Date_now E w))))
             \<subseteq> set (fs_ops w')"
proof -
  have a: "\<not> no_manifest E options" using assms(2) by (simp add: no_manifest_def)
  have b: "determined_packages E options = packages"
    using assms(2) by (simp add: determined_packages_def)
  obtain d m w' where t: "install_try E options (clock E (ticks w)) (or_else (opt_cwd options) ''/'')
       (w\<lparr>ticks := Suc (ticks w)\<rparr>) =
           (Inr \<lparr>success = True, installed = [], duration = d, error = None,
                 result_metadata = Some m\<rparr>, w')"
    and o: "(\<lambda>k. Mkdir ((or_else (opt_cwd options) ''/'' @ ''/node_modules'') @ ''/'' @ k)) `
              fst ` set (fst (resolveDependencies E packages (w\<lparr>ticks := Suc (ticks w)\<rparr>)))
             \<subseteq> set (fs_ops w')"
    using install_try_reliable[OF assms(1) a _ refl, of "clock E (ticks w)" "w\<lparr>ticks := Suc (ticks w)\<rparr>"]
      b assms(3) by auto
  have "install E options w = (Inr \<lparr>success = True, installed = [], duration = d, error = None,
                 result_metadata = Some m\<rparr>, w')"
    using t by (simp add: install_def Date_now_def)
  then show ?thesis using o by (simp add: Date_now_def)
qed

lemma reachable_nonempty: "reachable E packages n \<Longrightarrow> packages \<noteq> []"
  by (induction rule: reachable.induct) auto

lemma install_try_lockfile:
  assumes "fs_reliable E" and "\<not> no_manifest E options"
    and "determined_packages E options \<noteq> []"
    and "cwd = or_else (opt_cwd options) ''/''"
  shows "WriteFile (cwd @ ''/package-lock.json'')
           (lockfile_bytes (fst (resolveDependencies E (determined_packages E options) w)))
         \<in> set (fs_ops (snd (install_try E options t cwd w)))"
proof -
  obtain g w1 where g: "resolveDependencies E (determined_packages E options) w = (g, w1)"
    by (cases "resolveDependencies E (determined_packages E options) w")
  let ?w1' = "w1\<lparr>fs_ops := fs_ops w1 @ [Mkdir (cwd @ ''/node_modules'')]\<rparr>"
  let ?w2 = "snd (install_packages E (cwd @ ''/node_modules'') g ?w1')"
  have c: "createVirtualNodeModules E cwd g w1 = (None, ?w2)"
    using install_packages_reliable[OF assms(1), of "cwd @ ''/node_modules''" g ?w1']
    by (simp add: createVirtualNodeModules_def fs_call_reliable[OF assms(1)] Let_def prod_eq_iff)
  let ?w3 = "?w2\<lparr>fs_ops := fs_ops ?w2 @
               [WriteFile (cwd @ ''/package-lock.json'') (lockfile_bytes g)]\<rparr>"
  have "snd (install_try E options t cwd w) = ?w3\<lparr>ticks := Suc (ticks ?w3)\<rparr>"
    using assms(2,3) g c
    by (auto simp: install_try_def no_manifest_def determined_packages_def Let_def assms(4)
          fs_call_reliable[OF assms(1)] Date_now_def split: option.splits)
  then show ?thesis using g by simp
qed

lemma install_lockfile:
  assumes "fs_reliable E" and "opt_packages options = Some packages" and "packages \<noteq> []"
  shows "WriteFile (or_else (opt_cwd options) ''/'' @ ''/package-lock.json'')
           (lockfile_bytes (fst (resolveDependencies E packages (snd (Date_now E w)))))
         \<in> set (fs_ops (snd (install E options w)))"
proof -
  have a: "\<not> no_manifest E options" using assms(2) by (simp add: no_manifest_def)
  have b: "determined_packages E options = packages"
    using assms(2) by (simp add: determined_packages_def)
  let ?t = "install_try E options (clock E (ticks w)) (or_else (opt_cwd options) ''/'')
       (w\<lparr>ticks := Suc (ticks w)\<rparr>)"
  have l: "WriteFile (or_else (opt_cwd options) ''/'' @ ''/package-lock.json'')
           (lockfile_bytes (fst (resolveDependencies E packages (w\<lparr>ticks := Suc (ticks w)\<rparr>))))
         \<in> set (fs_ops (snd ?t))"
    using install_try_lockfile[OF assms(1) a _ refl, where t = "clock E (ticks w)"
            and w = "w\<lparr>ticks := Suc (ticks w)\<rparr>"]
      b assms(3) by simp
  obtain d m w' where t: "?t =
           (Inr \<lparr>success = True, installed = [], duration = d, error = None,
                 result_metadata = Some m\<rparr>, w')"
    using install_try_success[OF assms(1) a _ refl, of "clock E (ticks w)" "w\<lparr>ticks := Suc (ticks w)\<rparr>"]
      b assms(3) by auto
  have "snd (install E options w) = snd ?t"
    using t by (simp add: install_def Date_now_def)
  then show ?thesis using l by (simp add: Date_now_def)
qed

lemma install_request_success:
  assumes "fs_reliable E" and "opt_packages options = Some packages"
  shows "\<exists>r w'. install E options w = (Inr r, w') \<and> success r \<and> error r = None"
proof (cases "packages = []")
  case True
  have "\<not> no_manifest E options" using assms(2) by (simp add: no_manifest_def)
  moreover have "determined_packages E options = []"
    using assms(2) True by (simp add: determined_packages_def)
  ultimately show ?thesis using install_empty[of E options w] by simp
next
  case False
  from install_reliable[OF assms False, of w] show ?thesis by blast
qed

section \<open>The cache lookup in terms of the expiry and the clock\<close>

lemma valid_entry_present:
  assumes "map_of (cache w) k = Some c"
  shows "valid_entry E k w =
     (case ce_expires c of
        None \<Rightarrow> (Some c, w)
      | Some e \<Rightarrow>
          if e = 0 then (Some c, w)
          else (if clock E (ticks w) < e then Some c else None, w\<lparr>ticks := Suc (ticks w)\<rparr>))"
  using assms
  by (simp add: valid_entry_def Map_get_def isCacheValid_def Date_now_def split: option.splits)

lemma fetchPackageMetadata_fetches:
  assumes "valid_entry E (cacheKey n) w = (None, w1)" and "cache w1 = cache w"
  shows "fetched (snd (fetchPackageMetadata E n w)) = fetched w @ [registryUrl @ ''/'' @ n]"
    and "map_of (registry E) n = Some (OkJson m) \<Longrightarrow>
         fst (fetchPackageMetadata E n w) = Inr m \<and>
         Map_get (cache (snd (fetchPackageMetadata E n w))) (cacheKey n) =
           Some \<lparr>ce_key = cacheKey n, ce_data = JsonBytes m,
                 ce_timestamp = clock E (ticks w1 + 2),
                 ce_expires = Some (clock E (ticks w1 + 1) + 5 * 60 * 1000)\<rparr>"
proof -
  have f1: "fetched w1 = fetched w" using fetched_valid_entry[of E "cacheKey n" w] assms(1) by simp
  show "fetched (snd (fetchPackageMetadata E n w)) = fetched w @ [registryUrl @ ''/'' @ n]"
    using assms(1) f1 by (simp add: fetchPackageMetadata_miss split: fetch_response.splits)
  show "fst (fetchPackageMetadata E n w) = Inr m \<and>
         Map_get (cache (snd (fetchPackageMetadata E n w))) (cacheKey n) =
           Some \<lparr>ce_key = cacheKey n, ce_data = JsonBytes m,
                 ce_timestamp = clock E (ticks w1 + 2),
                 ce_expires = Some (clock E (ticks w1 + 1) + 5 * 60 * 1000)\<rparr>"
    if "map_of (registry E) n = Some (OkJson m)"
    using assms(1) that
    by (simp add: fetchPackageMetadata_miss fst_fetch Map_get_def map_of_Map_set Date_now_def)
qed

section \<open>The claims\<close>

text \<open>
  C1. The specification says that a successful \<open>install\<close> returns the names of the
  resolution graph as \<open>installed\<close>; for the request \<open>["pkg-a"]\<close> with \<open>pkg-a\<close> depending
  on \<open>pkg-b\<close> and \<open>pkg-b\<close> on \<open>pkg-c\<close> that is \<open>["pkg-a","pkg-b","pkg-c"]\<close>. The code
  computes \<open>Object.keys(resolvedGraph)\<close> on a \<open>Map\<close>: evaluated on this request, the
  install succeeds and the graph has the three names, but \<open>installed\<close> is empty.
\<close>

theorem install_chain_installed_empty:
  "map_sum id (\<lambda>r. (success r, installed r)) (fst (install chain_env (request [''pkg-a'']) fresh))
     = Inr (True, [])
   \<and> Map_keys (fst (resolveDependencies chain_env [''pkg-a''] (snd (Date_now chain_env fresh))))
     = [''pkg-a'', ''pkg-b'', ''pkg-c'']"
proof -
  have "fs_reliable chain_env" by (simp add: chain_env_def fs_reliable_env_of)
  moreover have "\<not> no_manifest chain_env (request [''pkg-a''])"
    by (simp add: no_manifest_def request_def)
  moreover have "determined_packages chain_env (request [''pkg-a'']) \<noteq> []"
    by (simp add: determined_packages_def request_def)
  ultimately obtain d m w' where
    "install chain_env (request [''pkg-a'']) fresh =
       (Inr \<lparr>success = True, installed = [], duration = d, error = None,
             result_metadata = Some m\<rparr>, w')"
    using install_success by blast
  then show ?thesis using chain_graph by simp
qed

text \<open>
  C2. The specification asks for lockfile bytes that do not depend on the insertion order
  of the graph. The code assigns the properties of \<open>packages\<close> and \<open>dependencies\<close> while
  it iterates the \<open>Map\<close> in insertion order and sorts nothing: two graphs with the same
  two entries in opposite orders give different bytes.
\<close>

theorem lockfile_order_counterexample:
  "distinct (Map_keys graph_ab) \<and> distinct (Map_keys graph_ba) \<and> set graph_ab = set graph_ba \<and>
   lockfile_bytes graph_ab \<noteq> lockfile_bytes graph_ba"
  by code_simp

text \<open>
  C2, as amended. Two graphs with the same entries yield lockfiles with the same
  top-level fields and with the same value under every name of \<open>packages\<close> and of
  \<open>dependencies\<close>: the same lockfile up to the order of the properties.
\<close>

theorem lockfile_same_entries:
  assumes "distinct (Map_keys g1)" and "distinct (Map_keys g2)" and "set g1 = set g2"
  shows "lf_name (generateLockfile g1) = lf_name (generateLockfile g2) \<and>
         lf_version (generateLockfile g1) = lf_version (generateLockfile g2) \<and>
         lf_lockfileVersion (generateLockfile g1) = lf_lockfileVersion (generateLockfile g2) \<and>
         map_of (lf_packages (generateLockfile g1)) = map_of (lf_packages (generateLockfile g2)) \<and>
         map_of (lf_dependencies (generateLockfile g1)) =
           map_of (lf_dependencies (generateLockfile g2))"
proof -
  have d1: "distinct (map fst g1)" and d2: "distinct (map fst g2)"
    using assms(1,2) by (simp_all add: Map_keys_def)
  have "map_of (rev (map (\<lambda>kv. (''node_modules/'' @ fst kv, lock_entry_of (snd kv)))
                      (filter (\<lambda>kv. True) g1))) =
        map_of (rev (map (\<lambda>kv. (''node_modules/'' @ fst kv, lock_entry_of (snd kv)))
                      (filter (\<lambda>kv. True) g2)))"
    by (rule map_of_same_entries[OF d1 d2 assms(3), where f = "\<lambda>n. ''node_modules/'' @ n"])
       (simp add: inj_def)
  then have p: "map_of (lf_packages (generateLockfile g1)) =
                map_of (lf_packages (generateLockfile g2))"
    by (simp only: generateLockfile_maps(1))
  have "map_of (rev (map (\<lambda>kv. (fst kv, data_version (snd kv)))
                      (filter (\<lambda>kv. fst kv \<noteq> ''__proto__'') g1))) =
        map_of (rev (map (\<lambda>kv. (fst kv, data_version (snd kv)))
                      (filter (\<lambda>kv. fst kv \<noteq> ''__proto__'') g2)))"
    by (rule map_of_same_entries[OF d1 d2 assms(3), where f = "\<lambda>n. n"]) (simp add: inj_def)
  then have d: "map_of (lf_dependencies (generateLockfile g1)) =
                map_of (lf_dependencies (generateLockfile g2))"
    by (simp only: generateLockfile_maps(2))
  show ?thesis using p d by (simp add: generateLockfile_fields)
qed

text \<open>
  The order of the properties of \<open>dependencies\<close>: an array index comes before the other
  names, and the assignment to \<open>__proto__\<close> leaves no property.
\<close>

lemma lockfile_dependencies_order:
  "Map_keys (lf_dependencies (generateLockfile graph_ab)) = [''a'', ''b'']"
  "Map_keys (lf_dependencies (generateLockfile graph_ba)) = [''b'', ''a'']"
  "Map_keys (lf_dependencies (generateLockfile graph_b2)) = [''2'', ''b'']"
  "Map_keys (lf_dependencies (generateLockfile graph_proto)) = [''a'']"
  "Map_keys (lf_packages (generateLockfile graph_proto)) =
     [''node_modules/a'', ''node_modules/__proto__'']"
  by code_simp+

theorem lockfile_same_entries_witness:
  "distinct (Map_keys graph_ab) \<and> distinct (Map_keys graph_ba) \<and> set graph_ab = set graph_ba \<and>
   lf_name (generateLockfile graph_ab) = lf_name (generateLockfile graph_ba) \<and>
   map_of (lf_packages (generateLockfile graph_ab)) =
     map_of (lf_packages (generateLockfile graph_ba)) \<and>
   map_of (lf_dependencies (generateLockfile graph_ab)) =
     map_of (lf_dependencies (generateLockfile graph_ba)) \<and>
   Map_keys (lf_dependencies (generateLockfile graph_ab)) = [''a'', ''b''] \<and>
   Map_keys (lf_dependencies (generateLockfile graph_ba)) = [''b'', ''a'']"
proof -
  have a: "distinct (Map_keys graph_ab)" and b: "distinct (Map_keys graph_ba)"
    and c: "set graph_ab = set graph_ba"
    by (auto simp: graph_ab_def graph_ba_def Map_keys_def)
  show ?thesis
    using lockfile_same_entries[OF a b c] a b c lockfile_dependencies_order(1,2)
    by simp
qed

text \<open>
  C3. Partial success, from every cache that is consistent with the registry: the empty
  cache of a new package manager and every cache that an \<open>install\<close> leaves behind
  (\<open>cache_consistent_fresh\<close>, \<open>cache_consistent_install\<close>). Whatever happens to the other
  names (network error, HTTP error, missing version), every name that enters the queue and
  that the registry resolves is a key of the returned graph. These names are the
  requested names and the dependencies of the queued names that have no slot in the
  cache; from an empty cache they are all the names reachable from the request. A name
  that is served from its cache slot is merged without its dependencies, so on a warm
  cache a dependency of such a name is in the graph only if it is queued on another way.
  Conversely, a key of the graph is a name that the registry resolves, or a name
  \<open>metadata:x\<close> that was served from the cache slot holding the metadata of the package
  \<open>x\<close>: every other name whose resolution fails is skipped. When the filesystem accepts
  the writes, \<open>install\<close> returns \<open>success: true\<close> without error and has created the
  directory of every queued name that the registry resolves.
\<close>

theorem partial_failure:
  assumes "plain_registry E" and "cache_consistent E w"
  shows "(\<forall>p \<in> set packages. resolvable E p \<longrightarrow>
            p \<in> set (Map_keys (fst (resolveDependencies E packages w)))) \<and>
         (\<forall>n. enqueued E w packages n \<and> resolvable E n \<longrightarrow>
            n \<in> set (Map_keys (fst (resolveDependencies E packages w)))) \<and>
         (cache w = [] \<longrightarrow>
            (\<forall>n. reachable E packages n \<and> resolvable E n \<longrightarrow>
               n \<in> set (Map_keys (fst (resolveDependencies E packages w))))) \<and>
         (\<forall>k \<in> set (Map_keys (fst (resolveDependencies E packages w))).
            resolvable E k \<or> metadata_slot_name E k) \<and>
         (fs_reliable E \<and> opt_packages options = Some packages \<longrightarrow>
            (\<exists>r w'. install E options w = (Inr r, w') \<and> success r \<and> error r = None \<and>
               (\<forall>n. enqueued E w packages n \<and> resolvable E n \<longrightarrow>
                  Mkdir ((or_else (opt_cwd options) ''/'' @ ''/node_modules'') @ ''/'' @ n)
                    \<in> set (fs_ops w'))))"
proof -
  let ?g = "fst (resolveDependencies E packages w)"
  have b: "n \<in> set (Map_keys ?g)" if "enqueued E w packages n" "resolvable E n" for n
    using enqueued_resolved[OF assms that] .
  have a: "p \<in> set (Map_keys ?g)" if "p \<in> set packages" "resolvable E p" for p
    using b[OF enqueued.requested[OF that(1)] that(2)] .
  have c: "n \<in> set (Map_keys ?g)"
    if "cache w = []" "reachable E packages n" "resolvable E n" for n
    using b[OF enqueued_cold[OF that(1,2)] that(3)] .
  have d: "resolvable E k \<or> metadata_slot_name E k" if "k \<in> set (Map_keys ?g)" for k
    using graph_keys_consistent[OF assms that] .
  have e: "\<exists>r w'. install E options w = (Inr r, w') \<and> success r \<and> error r = None \<and>
               (\<forall>n. enqueued E w packages n \<and> resolvable E n \<longrightarrow>
                  Mkdir ((or_else (opt_cwd options) ''/'' @ ''/node_modules'') @ ''/'' @ n)
                    \<in> set (fs_ops w'))"
    if f: "fs_reliable E" and o: "opt_packages options = Some packages"
  proof (cases "packages = []")
    case True
    have "\<not> enqueued E w packages n" for n using enqueued_nonempty[of E w packages n] True by blast
    then show ?thesis using install_request_success[OF f o, of w] by blast
  next
    case False
    let ?w0 = "snd (Date_now E w)"
    have c0: "cache ?w0 = cache w" by simp
    have cc: "cache_consistent E ?w0" using assms(2) cache_consistent_cong[OF c0] by simp
    obtain r w' where i: "install E options w = (Inr r, w')" "success r" "error r = None"
      and m: "(\<lambda>k. Mkdir ((or_else (opt_cwd options) ''/'' @ ''/node_modules'') @ ''/'' @ k)) `
              fst ` set (fst (resolveDependencies E packages ?w0)) \<subseteq> set (fs_ops w')"
      using install_reliable[OF f o False, of w] by blast
    have "Mkdir ((or_else (opt_cwd options) ''/'' @ ''/node_modules'') @ ''/'' @ n)
            \<in> set (fs_ops w')"
      if "enqueued E w packages n" "resolvable E n" for n
    proof -
      have "enqueued E ?w0 packages n" using that(1) enqueued_cong[OF c0] by simp
      then have "n \<in> set (Map_keys (fst (resolveDependencies E packages ?w0)))"
        using enqueued_resolved[OF assms(1) cc] that(2) by blast
      then have "n \<in> fst ` set (fst (resolveDependencies E packages ?w0))"
        by (simp add: Map_keys_def)
      then show ?thesis using m by blast
    qed
    then show ?thesis using i by blast
  qed
  show ?thesis using a b c d e by blast
qed

lemma flaky_facts:
  "plain_registry flaky_env"
  "registry_deps flaky_env ''pkg-a'' = [''pkg-b'', ''pkg-x'']"
  "resolvable flaky_env ''pkg-a''"
  "resolvable flaky_env ''pkg-b''"
  "\<not> resolvable flaky_env ''broken''"
  "\<not> resolvable flaky_env ''noversion''"
  "\<not> resolvable flaky_env ''pkg-x''"
  "Map_keys (fst (resolveDependencies flaky_env [''broken'', ''noversion'', ''pkg-a''] fresh)) =
     [''pkg-a'', ''pkg-b'']"
  by code_simp+

lemma flaky_warm_facts:
  "map fst (cache flaky_warm) = [''metadata:pkg-b'', ''pkg-b'']"
  "map_of (cache flaky_warm) ''pkg-a'' = None"
  "Map_keys (fst (resolveDependencies flaky_env [''broken'', ''noversion'', ''pkg-a''] flaky_warm)) =
     [''pkg-a'', ''pkg-b'']"
  "Map_keys (fst (resolveDependencies flaky_env [''pkg-b''] flaky_warm)) = [''pkg-b'']"
  by code_simp+

lemma chain_collision_facts:
  "plain_registry chain_env"
  "Map_keys (fst (resolveDependencies chain_env [''pkg-c'', ''metadata:pkg-c''] fresh)) =
     [''pkg-c'', ''metadata:pkg-c'']"
  "\<not> resolvable chain_env ''metadata:pkg-c''"
  "metadata_slot_name chain_env ''metadata:pkg-c''"
  by code_simp+

theorem partial_failure_witness:
  "plain_registry flaky_env \<and> cache_consistent flaky_env flaky_warm \<and> fs_reliable flaky_env \<and>
   map fst (cache flaky_warm) = [''metadata:pkg-b'', ''pkg-b''] \<and>
   enqueued flaky_env flaky_warm [''broken'', ''noversion'', ''pkg-a''] ''pkg-b'' \<and>
   resolvable flaky_env ''pkg-a'' \<and> resolvable flaky_env ''pkg-b'' \<and>
   \<not> resolvable flaky_env ''broken'' \<and> \<not> resolvable flaky_env ''noversion'' \<and>
   \<not> resolvable flaky_env ''pkg-x'' \<and>
   Map_keys (fst (resolveDependencies flaky_env [''broken'', ''noversion'', ''pkg-a''] flaky_warm)) =
     [''pkg-a'', ''pkg-b''] \<and>
   ''pkg-b'' \<in> set (Map_keys
      (fst (resolveDependencies flaky_env [''broken'', ''noversion'', ''pkg-a''] flaky_warm))) \<and>
   (\<exists>r w'. install flaky_env (request [''broken'', ''noversion'', ''pkg-a'']) flaky_warm = (Inr r, w') \<and>
      success r \<and> error r = None \<and> Mkdir ''//node_modules/pkg-b'' \<in> set (fs_ops w')) \<and>
   cache fresh = [] \<and> reachable flaky_env [''broken'', ''noversion'', ''pkg-a''] ''pkg-b'' \<and>
   ''pkg-b'' \<in> set (Map_keys
      (fst (resolveDependencies flaky_env [''broken'', ''noversion'', ''pkg-a''] fresh))) \<and>
   ''broken'' \<notin> set (Map_keys
      (fst (resolveDependencies flaky_env [''broken'', ''noversion'', ''pkg-a''] fresh))) \<and>
   Map_keys (fst (resolveDependencies chain_env [''pkg-c'', ''metadata:pkg-c''] fresh)) =
     [''pkg-c'', ''metadata:pkg-c''] \<and>
   \<not> resolvable chain_env ''metadata:pkg-c'' \<and> metadata_slot_name chain_env ''metadata:pkg-c''"
proof -
  let ?ps = "[''broken'', ''noversion'', ''pkg-a'']"
  have cw: "cache_consistent flaky_env flaky_warm"
    unfolding flaky_warm_def by (rule resolveDependencies_consistent[OF cache_consistent_fresh])
  have f: "fs_reliable flaky_env" by (simp add: flaky_env_def fs_reliable_env_of)
  have o: "opt_packages (request ?ps) = Some ?ps" by (simp add: request_def)
  have "enqueued flaky_env flaky_warm ?ps ''pkg-a''" by (rule enqueued.requested) simp
  then have q: "enqueued flaky_env flaky_warm ?ps ''pkg-b''"
    by (rule enqueued.pushed) (simp_all add: flaky_warm_facts(2) flaky_facts(2))
  have "reachable flaky_env ?ps ''pkg-a''" by (rule reachable.request) simp
  then have r: "reachable flaky_env ?ps ''pkg-b''"
    by (rule reachable.dependency) (simp add: flaky_facts(2))
  have c: "cache fresh = []" by (simp add: fresh_def)
  note warm = partial_failure[OF flaky_facts(1) cw, of ?ps "request ?ps"]
  note cold = partial_failure[OF flaky_facts(1) cache_consistent_fresh, of ?ps]
  note coll = partial_failure[OF chain_collision_facts(1) cache_consistent_fresh,
                of "[''pkg-c'', ''metadata:pkg-c'']"]
  have w1: "''pkg-b'' \<in> set (Map_keys (fst (resolveDependencies flaky_env ?ps flaky_warm)))"
    using warm q flaky_facts(4) by blast
  have w2: "\<exists>r w'. install flaky_env (request ?ps) flaky_warm = (Inr r, w') \<and>
      success r \<and> error r = None \<and> Mkdir ''//node_modules/pkg-b'' \<in> set (fs_ops w')"
  proof -
    obtain r w' where "install flaky_env (request ?ps) flaky_warm = (Inr r, w')" "success r"
      "error r = None"
      and m: "\<forall>n. enqueued flaky_env flaky_warm ?ps n \<and> resolvable flaky_env n \<longrightarrow>
                  Mkdir ((or_else (opt_cwd (request ?ps)) ''/'' @ ''/node_modules'') @ ''/'' @ n)
                    \<in> set (fs_ops w')"
      using warm f o by blast
    moreover have "Mkdir ((or_else (opt_cwd (request ?ps)) ''/'' @ ''/node_modules'') @ ''/'' @ ''pkg-b'')
                    \<in> set (fs_ops w')"
      using m q flaky_facts(4) by blast
    then have "Mkdir ''//node_modules/pkg-b'' \<in> set (fs_ops w')"
      by (simp add: request_def or_else_def)
    ultimately show ?thesis by blast
  qed
  have c1: "''pkg-b'' \<in> set (Map_keys (fst (resolveDependencies flaky_env ?ps fresh)))"
    using cold c r flaky_facts(4) by blast
  have c2: "''broken'' \<notin> set (Map_keys (fst (resolveDependencies flaky_env ?ps fresh)))"
    unfolding flaky_facts(8) by simp
  have k: "resolvable chain_env ''metadata:pkg-c'' \<or> metadata_slot_name chain_env ''metadata:pkg-c''"
    using coll unfolding chain_collision_facts(2) by simp
  show ?thesis
    using cw f q r c w1 w2 c1 c2 k flaky_facts flaky_warm_facts chain_collision_facts by simp
qed

text \<open>
  C4. Dependency cycles, from every cache that is consistent with the registry. The loop
  of \<open>resolveDependencies\<close> ends after finitely many iterations, whatever the request
  and the cache; no name is a key of the graph twice; every member of a dependency cycle
  that enters the queue is a key of the graph exactly once, which holds for all members
  when the request list contains them and, from an empty cache, when one member is
  reachable from the request; and no error is raised: \<open>resolveDependencies\<close> returns the
  graph, and \<open>install\<close> succeeds without error when the filesystem accepts the writes.
\<close>

theorem cycle_resolves:
  assumes "plain_registry E" and "cache_consistent E w" and "dep_cycle E cyc"
  shows "(\<exists>fuel. resolve_bounded fuel E packages [] [] w =
                  Some (resolveDependencies E packages w)) \<and>
         distinct (Map_keys (fst (resolveDependencies E packages w))) \<and>
         (set cyc \<subseteq> set packages \<longrightarrow>
            (\<forall>n \<in> set cyc. count_list (Map_keys (fst (resolveDependencies E packages w))) n = 1)) \<and>
         (\<forall>n \<in> set cyc. enqueued E w packages n \<longrightarrow>
            count_list (Map_keys (fst (resolveDependencies E packages w))) n = 1) \<and>
         (cache w = [] \<and> (\<exists>c \<in> set cyc. reachable E packages c) \<longrightarrow>
            (\<forall>n \<in> set cyc. count_list (Map_keys (fst (resolveDependencies E packages w))) n = 1)) \<and>
         (fs_reliable E \<longrightarrow>
            (\<exists>r. fst (install E (request packages) w) = Inr r \<and> success r \<and> error r = None))"
proof -
  let ?g = "fst (resolveDependencies E packages w)"
  have t: "\<exists>fuel. resolve_bounded fuel E packages [] [] w =
                  Some (resolveDependencies E packages w)"
    using resolve_bounded_terminates[of E packages "[]" "[]" w]
    by (simp add: resolveDependencies_def)
  have d: "distinct (Map_keys ?g)"
    using resolve_loop_distinct[of "[]" E packages "[]" w]
    by (simp add: Map_keys_def resolveDependencies_def)
  have q: "count_list (Map_keys ?g) n = 1" if "n \<in> set cyc" "enqueued E w packages n" for n
  proof -
    have "resolvable E n" using dep_cycle_resolvable[OF assms(3)] that(1) by blast
    then have "n \<in> set (Map_keys ?g)" using enqueued_resolved[OF assms(1,2) that(2)] by blast
    then show ?thesis using d by (intro count_list_distinct)
  qed
  have a: "count_list (Map_keys ?g) n = 1" if "set cyc \<subseteq> set packages" "n \<in> set cyc" for n
    using q[OF that(2)] that enqueued.requested[of n packages E w] by blast
  have c: "count_list (Map_keys ?g) n = 1"
    if "cache w = []" "c \<in> set cyc" "reachable E packages c" "n \<in> set cyc" for n c
  proof -
    have "reachable E packages n" using dep_cycle_reachable[OF assms(3) that(2,3)] that(4) by blast
    then show ?thesis using q[OF that(4)] enqueued_cold[OF that(1)] by blast
  qed
  have i: "\<exists>r. fst (install E (request packages) w) = Inr r \<and> success r \<and> error r = None"
    if "fs_reliable E"
  proof -
    have "opt_packages (request packages) = Some packages" by (simp add: request_def)
    from install_request_success[OF that this, of w] show ?thesis by auto
  qed
  show ?thesis using t d q a c i by blast
qed

lemma cycle_facts:
  "plain_registry cycle_env"
  "dep_cycle cycle_env [''pkg-a'', ''pkg-b'']"
  "Map_keys (fst (resolveDependencies cycle_env [''pkg-a''] fresh)) = [''pkg-a'', ''pkg-b'']"
  "resolve_bounded 3 cycle_env [''pkg-a''] [] [] fresh =
     Some (resolveDependencies cycle_env [''pkg-a''] fresh)"
  by code_simp+

lemma cycle_warm_facts:
  "map fst (cache cycle_warm) = [''metadata:pkg-a'', ''pkg-a'', ''metadata:pkg-b'', ''pkg-b'']"
  "Map_keys (fst (resolveDependencies cycle_env [''pkg-a'', ''pkg-b''] cycle_warm)) =
     [''pkg-a'', ''pkg-b'']"
  "Map_keys (fst (resolveDependencies cycle_env [''pkg-a''] cycle_warm)) = [''pkg-a'']"
  "resolve_bounded 2 cycle_env [''pkg-a'', ''pkg-b''] [] [] cycle_warm =
     Some (resolveDependencies cycle_env [''pkg-a'', ''pkg-b''] cycle_warm)"
  by code_simp+

theorem cycle_resolves_witness:
  "plain_registry cycle_env \<and> dep_cycle cycle_env [''pkg-a'', ''pkg-b''] \<and>
   fs_reliable cycle_env \<and>
   cache_consistent cycle_env cycle_warm \<and>
   map fst (cache cycle_warm) = [''metadata:pkg-a'', ''pkg-a'', ''metadata:pkg-b'', ''pkg-b''] \<and>
   set [''pkg-a'', ''pkg-b''] \<subseteq> set [''pkg-a'', ''pkg-b''] \<and>
   resolve_bounded 2 cycle_env [''pkg-a'', ''pkg-b''] [] [] cycle_warm =
     Some (resolveDependencies cycle_env [''pkg-a'', ''pkg-b''] cycle_warm) \<and>
   Map_keys (fst (resolveDependencies cycle_env [''pkg-a'', ''pkg-b''] cycle_warm)) =
     [''pkg-a'', ''pkg-b''] \<and>
   count_list (Map_keys (fst (resolveDependencies cycle_env [''pkg-a'', ''pkg-b''] cycle_warm)))
     ''pkg-a'' = 1 \<and>
   count_list (Map_keys (fst (resolveDependencies cycle_env [''pkg-a'', ''pkg-b''] cycle_warm)))
     ''pkg-b'' = 1 \<and>
   (\<exists>r. fst (install cycle_env (request [''pkg-a'', ''pkg-b'']) cycle_warm) = Inr r \<and>
        success r \<and> error r = None) \<and>
   cache fresh = [] \<and> reachable cycle_env [''pkg-a''] ''pkg-a'' \<and>
   resolve_bounded 3 cycle_env [''pkg-a''] [] [] fresh =
     Some (resolveDependencies cycle_env [''pkg-a''] fresh) \<and>
   Map_keys (fst (resolveDependencies cycle_env [''pkg-a''] fresh)) = [''pkg-a'', ''pkg-b''] \<and>
   count_list (Map_keys (fst (resolveDependencies cycle_env [''pkg-a''] fresh))) ''pkg-a'' = 1 \<and>
   count_list (Map_keys (fst (resolveDependencies cycle_env [''pkg-a''] fresh))) ''pkg-b'' = 1 \<and>
   Map_keys (fst (resolveDependencies cycle_env [''pkg-a''] cycle_warm)) = [''pkg-a'']"
proof -
  have cw: "cache_consistent cycle_env cycle_warm"
    unfolding cycle_warm_def by (rule resolveDependencies_consistent[OF cache_consistent_fresh])
  have f: "fs_reliable cycle_env" by (simp add: cycle_env_def fs_reliable_env_of)
  have c: "cache fresh = []" by (simp add: fresh_def)
  have r: "reachable cycle_env [''pkg-a''] ''pkg-a''" by (rule reachable.request) simp
  note warm = cycle_resolves[OF cycle_facts(1) cw cycle_facts(2), of "[''pkg-a'', ''pkg-b'']"]
  note cold = cycle_resolves[OF cycle_facts(1) cache_consistent_fresh cycle_facts(2),
                of "[''pkg-a'']"]
  have w1: "count_list (Map_keys (fst (resolveDependencies cycle_env [''pkg-a'', ''pkg-b'']
              cycle_warm))) ''pkg-a'' = 1"
    and w2: "count_list (Map_keys (fst (resolveDependencies cycle_env [''pkg-a'', ''pkg-b'']
              cycle_warm))) ''pkg-b'' = 1"
    using warm by simp_all
  have w3: "\<exists>r. fst (install cycle_env (request [''pkg-a'', ''pkg-b'']) cycle_warm) = Inr r \<and>
        success r \<and> error r = None"
    using warm f by blast
  have "\<forall>n \<in> set [''pkg-a'', ''pkg-b''].
          count_list (Map_keys (fst (resolveDependencies cycle_env [''pkg-a''] fresh))) n = 1"
    using cold c r by (metis list.set_intros(1))
  then have c1: "count_list (Map_keys (fst (resolveDependencies cycle_env [''pkg-a''] fresh)))
                   ''pkg-a'' = 1"
    and c2: "count_list (Map_keys (fst (resolveDependencies cycle_env [''pkg-a''] fresh)))
                   ''pkg-b'' = 1"
    by simp_all
  show ?thesis
    using cw f c r w1 w2 w3 c1 c2 cycle_facts cycle_warm_facts by simp
qed

text \<open>
  C5. \<open>install\<close> never throws: it always returns a result object. Every error thrown
  inside its \<open>try\<close> block is reported as \<open>{success: false, installed: [], error:
  String(error)}\<close>; in particular, without \<open>package.json\<close> and without an explicit
  package list the result carries the error "No package.json found and no packages
  specified".
\<close>

theorem install_never_throws:
  "(\<exists>r w'. install E options w = (Inr r, w')) \<and>
   (\<forall>e w1. install_try E options (clock E (ticks w)) (or_else (opt_cwd options) ''/'')
              (w\<lparr>ticks := Suc (ticks w)\<rparr>) = (Inl e, w1) \<longrightarrow>
            fst (install E options w) =
              Inr \<lparr>success = False, installed = [],
                   duration = clock E (ticks w1) - clock E (ticks w),
                   error = Some (String_of_error e), result_metadata = None\<rparr>) \<and>
   (no_manifest E options \<longrightarrow>
      fst (install E options w) =
        Inr \<lparr>success = False, installed = [],
             duration = clock E (Suc (ticks w)) - clock E (ticks w),
             error = Some ''Error: No package.json found and no packages specified'',
             result_metadata = None\<rparr>)"
  using install_returns[of E options w] install_caught[of E options w]
    install_no_manifest[of E options w]
  by simp

lemma readonly_try:
  "install_try readonly_env (request [''left-pad'']) 1000 ''/'' (fresh\<lparr>ticks := Suc 0\<rparr>) =
     (Inl (Error ''EROFS: read-only file system''),
      \<lparr>cache = [], ticks = Suc 0,
       fetched = [''https://registry.npmjs.org/left-pad''],
       fs_ops = [Mkdir ''//node_modules'']\<rparr>)"
  by code_simp

theorem install_never_throws_witness:
  "no_manifest chain_env no_options \<and>
   fst (install chain_env no_options fresh) =
     Inr \<lparr>success = False, installed = [], duration = 1,
          error = Some ''Error: No package.json found and no packages specified'',
          result_metadata = None\<rparr> \<and>
   install_try readonly_env (request [''left-pad'']) 1000 ''/'' (fresh\<lparr>ticks := Suc 0\<rparr>) =
     (Inl (Error ''EROFS: read-only file system''),
      \<lparr>cache = [], ticks = Suc 0,
       fetched = [''https://registry.npmjs.org/left-pad''],
       fs_ops = [Mkdir ''//node_modules'']\<rparr>) \<and>
   fst (install readonly_env (request [''left-pad'']) fresh) =
     Inr \<lparr>success = False, installed = [], duration = 1,
          error = Some ''Error: EROFS: read-only file system'', result_metadata = None\<rparr>"
proof -
  have nm: "no_manifest chain_env no_options"
    by (simp add: no_manifest_def no_options_def read_package_json_def chain_env_def env_of_def)
  have a: "fst (install chain_env no_options fresh) =
     Inr \<lparr>success = False, installed = [], duration = 1,
          error = Some ''Error: No package.json found and no packages specified'',
          result_metadata = None\<rparr>"
    using install_never_throws[of chain_env no_options fresh] nm
    by (simp add: chain_env_def env_of_def fresh_def)
  have b: "fst (install readonly_env (request [''left-pad'']) fresh) =
     Inr \<lparr>success = False, installed = [], duration = 1,
          error = Some ''Error: EROFS: read-only file system'', result_metadata = None\<rparr>"
    using install_never_throws[of readonly_env "request [''left-pad'']" fresh] readonly_try
    by (simp add: readonly_env_def env_of_def fresh_def request_def or_else_def
          String_of_error_def Error_def)
  show ?thesis using nm a b readonly_try by simp
qed

text \<open>
  C6. An entry is unexpired when it has no expiry, or the expiry \<open>0\<close> (which
  \<open>!entry.expires\<close> takes for none), or an expiry that is later than the reading of the
  clock. When the cache holds an unexpired entry under \<open>metadata:name\<close>,
  \<open>fetchPackageMetadata\<close> returns the deserialised payload of that entry; the fetch log
  and the cache are unchanged. When there is no entry under that key, or an entry whose
  expiry is not later than the reading of the clock, it issues one fetch of
  \<open>registryUrl/name\<close>; when the registry answers with metadata, the result is that
  metadata and the cache then holds, under \<open>metadata:name\<close>, the serialised metadata
  with \<open>expires\<close> equal to the clock reading taken after the answer plus \<open>5 * 60 * 1000\<close>
  milliseconds. The first clock reading after the answer is the one that the code
  discards (\<open>timestamp: Date.now()\<close> of the argument), the second gives \<open>expires\<close>, the
  third the \<open>timestamp\<close> of the entry.
\<close>

theorem fetchPackageMetadata_cache_or_fetch:
  "(\<forall>c. map_of (cache w) (cacheKey name) = Some c \<and>
         (ce_expires c = None \<or> ce_expires c = Some 0 \<or>
          (\<exists>e. ce_expires c = Some e \<and> clock E (ticks w) < e)) \<longrightarrow>
      fst (fetchPackageMetadata E name w) = decode_parse (ce_data c) \<and>
      fetched (snd (fetchPackageMetadata E name w)) = fetched w \<and>
      cache (snd (fetchPackageMetadata E name w)) = cache w) \<and>
   (map_of (cache w) (cacheKey name) = None \<longrightarrow>
      fetched (snd (fetchPackageMetadata E name w)) = fetched w @ [registryUrl @ ''/'' @ name] \<and>
      (\<forall>m. map_of (registry E) name = Some (OkJson m) \<longrightarrow>
         fst (fetchPackageMetadata E name w) = Inr m \<and>
         Map_get (cache (snd (fetchPackageMetadata E name w))) (cacheKey name) =
           Some \<lparr>ce_key = cacheKey name, ce_data = JsonBytes m,
                 ce_timestamp = clock E (ticks w + 2),
                 ce_expires = Some (clock E (ticks w + 1) + 5 * 60 * 1000)\<rparr>)) \<and>
   (\<forall>c e. map_of (cache w) (cacheKey name) = Some c \<and> ce_expires c = Some e \<and> e \<noteq> 0 \<and>
           e \<le> clock E (ticks w) \<longrightarrow>
      fetched (snd (fetchPackageMetadata E name w)) = fetched w @ [registryUrl @ ''/'' @ name] \<and>
      (\<forall>m. map_of (registry E) name = Some (OkJson m) \<longrightarrow>
         fst (fetchPackageMetadata E name w) = Inr m \<and>
         Map_get (cache (snd (fetchPackageMetadata E name w))) (cacheKey name) =
           Some \<lparr>ce_key = cacheKey name, ce_data = JsonBytes m,
                 ce_timestamp = clock E (ticks w + 3),
                 ce_expires = Some (clock E (ticks w + 2) + 5 * 60 * 1000)\<rparr>))"
proof -
  have hit: "fst (fetchPackageMetadata E name w) = decode_parse (ce_data c) \<and>
      fetched (snd (fetchPackageMetadata E name w)) = fetched w \<and>
      cache (snd (fetchPackageMetadata E name w)) = cache w"
    if m: "map_of (cache w) (cacheKey name) = Some c"
      and u: "ce_expires c = None \<or> ce_expires c = Some 0 \<or>
          (\<exists>e. ce_expires c = Some e \<and> clock E (ticks w) < e)" for c
  proof -
    have "\<exists>w1. valid_entry E (cacheKey name) w = (Some c, w1)"
      using u by (auto simp: valid_entry_present[OF m])
    then obtain w1 where v: "valid_entry E (cacheKey name) w = (Some c, w1)" by blast
    have "fetched w1 = fetched w" "cache w1 = cache w"
      using fetched_valid_entry[of E "cacheKey name" w] cache_valid_entry[of E "cacheKey name" w] v
      by simp_all
    then show ?thesis using v by (simp add: fetchPackageMetadata_hit)
  qed
  have absent: "fetched (snd (fetchPackageMetadata E name w)) = fetched w @ [registryUrl @ ''/'' @ name] \<and>
      (\<forall>m. map_of (registry E) name = Some (OkJson m) \<longrightarrow>
         fst (fetchPackageMetadata E name w) = Inr m \<and>
         Map_get (cache (snd (fetchPackageMetadata E name w))) (cacheKey name) =
           Some \<lparr>ce_key = cacheKey name, ce_data = JsonBytes m,
                 ce_timestamp = clock E (ticks w + 2),
                 ce_expires = Some (clock E (ticks w + 1) + 5 * 60 * 1000)\<rparr>)"
    if "map_of (cache w) (cacheKey name) = None"
    using fetchPackageMetadata_fetches[OF valid_entry_absent[OF that] refl] by blast
  have expired: "fetched (snd (fetchPackageMetadata E name w)) = fetched w @ [registryUrl @ ''/'' @ name] \<and>
      (\<forall>m. map_of (registry E) name = Some (OkJson m) \<longrightarrow>
         fst (fetchPackageMetadata E name w) = Inr m \<and>
         Map_get (cache (snd (fetchPackageMetadata E name w))) (cacheKey name) =
           Some \<lparr>ce_key = cacheKey name, ce_data = JsonBytes m,
                 ce_timestamp = clock E (ticks w + 3),
                 ce_expires = Some (clock E (ticks w + 2) + 5 * 60 * 1000)\<rparr>)"
    if m: "map_of (cache w) (cacheKey name) = Some c" and e: "ce_expires c = Some e" "e \<noteq> 0"
      "e \<le> clock E (ticks w)" for c e
  proof -
    have v: "valid_entry E (cacheKey name) w = (None, w\<lparr>ticks := Suc (ticks w)\<rparr>)"
      using e by (simp add: valid_entry_present[OF m])
    have "cache (w\<lparr>ticks := Suc (ticks w)\<rparr>) = cache w" by simp
    from fetchPackageMetadata_fetches[OF v this] show ?thesis
      by (simp add: numeral_3_eq_3 numeral_2_eq_2)
  qed
  show ?thesis using hit absent expired by blast
qed

lemma warm_eval:
  "warm = \<lparr>cache = [(''metadata:pkg-c'',
                      \<lparr>ce_key = ''metadata:pkg-c'', ce_data = JsonBytes pkg_c_metadata,
                       ce_timestamp = 1002, ce_expires = Some 301001\<rparr>)],
           ticks = 3, fetched = [''https://registry.npmjs.org/pkg-c''], fs_ops = []\<rparr>"
  by code_simp

lemma stale_eval:
  "stale = \<lparr>cache = [(''metadata:pkg-c'',
                      \<lparr>ce_key = ''metadata:pkg-c'', ce_data = JsonBytes pkg_c_metadata,
                       ce_timestamp = 801000, ce_expires = Some 701000\<rparr>)],
            ticks = 3, fetched = [''https://registry.npmjs.org/pkg-c''], fs_ops = []\<rparr>"
  by code_simp

lemma chain_registry_c: "map_of (registry chain_env) ''pkg-c'' = Some (OkJson pkg_c_metadata)"
  by code_simp

lemma slow_registry_c: "map_of (registry slow_clock_env) ''pkg-c'' = Some (OkJson pkg_c_metadata)"
  by code_simp

theorem fetchPackageMetadata_cache_or_fetch_witness:
  "map_of (cache warm) (cacheKey ''pkg-c'') =
     Some \<lparr>ce_key = ''metadata:pkg-c'', ce_data = JsonBytes pkg_c_metadata,
           ce_timestamp = 1002, ce_expires = Some 301001\<rparr> \<and>
   clock chain_env (ticks warm) = 1003 \<and>
   fst (fetchPackageMetadata chain_env ''pkg-c'' warm) = Inr pkg_c_metadata \<and>
   fetched (snd (fetchPackageMetadata chain_env ''pkg-c'' warm)) = fetched warm \<and>
   cache (snd (fetchPackageMetadata chain_env ''pkg-c'' warm)) = cache warm \<and>
   map_of (cache fresh) (cacheKey ''pkg-c'') = None \<and>
   map_of (registry chain_env) ''pkg-c'' = Some (OkJson pkg_c_metadata) \<and>
   fetched (snd (fetchPackageMetadata chain_env ''pkg-c'' fresh)) =
     [''https://registry.npmjs.org/pkg-c''] \<and>
   fst (fetchPackageMetadata chain_env ''pkg-c'' fresh) = Inr pkg_c_metadata \<and>
   Map_get (cache (snd (fetchPackageMetadata chain_env ''pkg-c'' fresh))) (cacheKey ''pkg-c'') =
     Some \<lparr>ce_key = ''metadata:pkg-c'', ce_data = JsonBytes pkg_c_metadata,
           ce_timestamp = 1002, ce_expires = Some (1001 + 300000)\<rparr> \<and>
   map_of (cache stale) (cacheKey ''pkg-c'') =
     Some \<lparr>ce_key = ''metadata:pkg-c'', ce_data = JsonBytes pkg_c_metadata,
           ce_timestamp = 801000, ce_expires = Some 701000\<rparr> \<and>
   clock slow_clock_env (ticks stale) = 1201000 \<and>
   fetched (snd (fetchPackageMetadata slow_clock_env ''pkg-c'' stale)) =
     [''https://registry.npmjs.org/pkg-c'', ''https://registry.npmjs.org/pkg-c''] \<and>
   fst (fetchPackageMetadata slow_clock_env ''pkg-c'' stale) = Inr pkg_c_metadata \<and>
   Map_get (cache (snd (fetchPackageMetadata slow_clock_env ''pkg-c'' stale))) (cacheKey ''pkg-c'') =
     Some \<lparr>ce_key = ''metadata:pkg-c'', ce_data = JsonBytes pkg_c_metadata,
           ce_timestamp = 2401000, ce_expires = Some (2001000 + 300000)\<rparr>"
proof -
  have mw: "map_of (cache warm) (cacheKey ''pkg-c'') =
     Some \<lparr>ce_key = ''metadata:pkg-c'', ce_data = JsonBytes pkg_c_metadata,
           ce_timestamp = 1002, ce_expires = Some 301001\<rparr>"
    by (simp add: warm_eval cacheKey_def)
  have cw: "clock chain_env (ticks warm) = 1003"
    by (simp add: warm_eval chain_env_def env_of_def)
  have a: "fst (fetchPackageMetadata chain_env ''pkg-c'' warm) = Inr pkg_c_metadata \<and>
      fetched (snd (fetchPackageMetadata chain_env ''pkg-c'' warm)) = fetched warm \<and>
      cache (snd (fetchPackageMetadata chain_env ''pkg-c'' warm)) = cache warm"
    using fetchPackageMetadata_cache_or_fetch[of warm "''pkg-c''" chain_env] mw cw
    by simp
  have mf: "map_of (cache fresh) (cacheKey ''pkg-c'') = None" by (simp add: fresh_def)
  have b: "fetched (snd (fetchPackageMetadata chain_env ''pkg-c'' fresh)) =
     [''https://registry.npmjs.org/pkg-c''] \<and>
   fst (fetchPackageMetadata chain_env ''pkg-c'' fresh) = Inr pkg_c_metadata \<and>
   Map_get (cache (snd (fetchPackageMetadata chain_env ''pkg-c'' fresh))) (cacheKey ''pkg-c'') =
     Some \<lparr>ce_key = ''metadata:pkg-c'', ce_data = JsonBytes pkg_c_metadata,
           ce_timestamp = 1002, ce_expires = Some (1001 + 300000)\<rparr>"
    using fetchPackageMetadata_cache_or_fetch[of fresh "''pkg-c''" chain_env] mf chain_registry_c
    by (simp add: fresh_def chain_env_def env_of_def registryUrl_def cacheKey_def)
  have ms: "map_of (cache stale) (cacheKey ''pkg-c'') =
     Some \<lparr>ce_key = ''metadata:pkg-c'', ce_data = JsonBytes pkg_c_metadata,
           ce_timestamp = 801000, ce_expires = Some 701000\<rparr>"
    by (simp add: stale_eval cacheKey_def)
  have cs: "clock slow_clock_env (ticks stale) = 1201000"
    by (simp add: stale_eval slow_clock_env_def)
  have c: "fetched (snd (fetchPackageMetadata slow_clock_env ''pkg-c'' stale)) =
     [''https://registry.npmjs.org/pkg-c'', ''https://registry.npmjs.org/pkg-c''] \<and>
   fst (fetchPackageMetadata slow_clock_env ''pkg-c'' stale) = Inr pkg_c_metadata \<and>
   Map_get (cache (snd (fetchPackageMetadata slow_clock_env ''pkg-c'' stale))) (cacheKey ''pkg-c'') =
     Some \<lparr>ce_key = ''metadata:pkg-c'', ce_data = JsonBytes pkg_c_metadata,
           ce_timestamp = 2401000, ce_expires = Some (2001000 + 300000)\<rparr>"
    using fetchPackageMetadata_cache_or_fetch[of stale "''pkg-c''" slow_clock_env] ms cs
      slow_registry_c
    by (simp add: stale_eval slow_clock_env_def registryUrl_def cacheKey_def)
  show ?thesis using mw cw a mf chain_registry_c b ms cs c by simp
qed

text \<open>
  C7. Flat install: in every graph that \<open>resolveDependencies\<close> returns (from a cache
  that satisfies its invariant), each name is the key of at most one entry, two entries
  that carry the same \<open>name\<close> are one and the same entry (so they cannot differ in
  \<open>version\<close>), and a request for a name that was requested before changes nothing:
  neither the graph nor the state.
\<close>

theorem flat_install_invariant:
  assumes "cache_wf w"
  shows "distinct (Map_keys (fst (resolveDependencies E packages w))) \<and>
         (\<forall>e1 \<in> set (fst (resolveDependencies E packages w)).
          \<forall>e2 \<in> set (fst (resolveDependencies E packages w)).
            data_name (snd e1) \<noteq> None \<and> data_name (snd e1) = data_name (snd e2) \<longrightarrow> e1 = e2) \<and>
         (\<forall>p \<in> set packages. \<forall>later.
            resolveDependencies E (packages @ p # later) w =
            resolveDependencies E (packages @ later) w)"
proof -
  let ?g = "fst (resolveDependencies E packages w)"
  have d: "distinct (map fst ?g)" and wf: "graph_wf ?g"
    using resolveDependencies_wf[OF assms] by simp_all
  have "e1 = e2" if h1: "e1 \<in> set ?g" and h2: "e2 \<in> set ?g"
    and h3: "data_name (snd e1) \<noteq> None"
    and h4: "data_name (snd e1) = data_name (snd e2)" for e1 e2
  proof -
    obtain n where n: "data_name (snd e1) = Some n" using h3 by auto
    have "fst e1 = n" using graph_wf_name[OF wf h1 n] .
    moreover have "fst e2 = n" using graph_wf_name[OF wf h2] n h4 by simp
    ultimately have "fst e1 = fst e2" by simp
    then show ?thesis using d h1 h2
      by (metis eq_key_imp_eq_value prod.collapse)
  qed
  moreover have "resolveDependencies E (packages @ p # later) w =
            resolveDependencies E (packages @ later) w" if "p \<in> set packages" for p later
    using that resolve_loop_drop_duplicate[of p "[]" packages E later "[]" w]
    by (simp add: resolveDependencies_def)
  ultimately show ?thesis using d by (auto simp: Map_keys_def)
qed

lemma cycle_graph:
  "Map_keys (fst (resolveDependencies cycle_env [''pkg-a'', ''pkg-b''] fresh)) = [''pkg-a'', ''pkg-b'']"
  by code_simp

theorem flat_install_invariant_witness:
  "cache_wf fresh \<and>
   Map_keys (fst (resolveDependencies cycle_env [''pkg-a'', ''pkg-b''] fresh)) = [''pkg-a'', ''pkg-b''] \<and>
   distinct (Map_keys (fst (resolveDependencies cycle_env [''pkg-a'', ''pkg-b''] fresh))) \<and>
   resolveDependencies cycle_env ([''pkg-a'', ''pkg-b''] @ ''pkg-a'' # [''pkg-c'']) fresh =
   resolveDependencies cycle_env ([''pkg-a'', ''pkg-b''] @ [''pkg-c'']) fresh"
  using flat_install_invariant[OF cache_wf_fresh, of cycle_env "[''pkg-a'', ''pkg-b'']"]
    cache_wf_fresh cycle_graph
  by simp

text \<open>
  C8. The specification says that the lockfile, parsed back, has a \<open>dependencies\<close> object
  whose keys are exactly the names of the graph, for every resolution graph. The loop of
  \<open>generateLockfile\<close> assigns \<open>lockfile.dependencies[pkgName] = packageData.version\<close>
  for every entry, next to \<open>lockfile.packages[...]\<close>, but the value is \<open>undefined\<close> for
  an entry that the resolver merged from a cache slot holding metadata bytes, and
  \<open>JSON.stringify\<close> leaves a property with the value \<open>undefined\<close> out. Evaluated on
  \<open>install({packages: ["pkg-c", "metadata:pkg-c"]})\<close>: the install succeeds and writes
  the lockfile of a graph with the keys \<open>pkg-c\<close> and \<open>metadata:pkg-c\<close>; the
  \<open>dependencies\<close> object of the lockfile has the properties \<open>pkg-c\<close> and
  \<open>metadata:pkg-c\<close>, the second with the value \<open>undefined\<close>; in the text that is
  written, \<open>packages\<close> has both keys and \<open>dependencies\<close> has the key \<open>pkg-c\<close> only.
\<close>

theorem lockfile_roundtrip_missing_key:
  "(\<exists>r w'. install chain_env (request [''pkg-c'', ''metadata:pkg-c'']) fresh = (Inr r, w') \<and>
      success r \<and>
      WriteFile ''//package-lock.json'' (lockfile_bytes collision_graph) \<in> set (fs_ops w')) \<and>
   Map_keys collision_graph = [''pkg-c'', ''metadata:pkg-c''] \<and>
   Map_keys (lf_packages (generateLockfile collision_graph)) =
     [''node_modules/pkg-c'', ''node_modules/metadata:pkg-c''] \<and>
   lf_dependencies (generateLockfile collision_graph) =
     [(''pkg-c'', Some ''1.0.0''), (''metadata:pkg-c'', None)] \<and>
   lockfile_bytes collision_graph = collision_lockfile_text"
proof -
  let ?ps = "[''pkg-c'', ''metadata:pkg-c'']"
  have f: "fs_reliable chain_env" by (simp add: chain_env_def fs_reliable_env_of)
  have o: "opt_packages (request ?ps) = Some ?ps" by (simp add: request_def)
  obtain r w' where i: "install chain_env (request ?ps) fresh = (Inr r, w')" "success r"
    using install_request_success[OF f o, of fresh] by blast
  have "WriteFile (or_else (opt_cwd (request ?ps)) ''/'' @ ''/package-lock.json'')
           (lockfile_bytes (fst (resolveDependencies chain_env ?ps (snd (Date_now chain_env fresh)))))
         \<in> set (fs_ops (snd (install chain_env (request ?ps) fresh)))"
    by (rule install_lockfile[OF f o]) simp
  then have "WriteFile ''//package-lock.json'' (lockfile_bytes collision_graph) \<in> set (fs_ops w')"
    using i(1) by (simp add: collision_graph_def request_def or_else_def)
  then have a: "\<exists>r w'. install chain_env (request ?ps) fresh = (Inr r, w') \<and> success r \<and>
      WriteFile ''//package-lock.json'' (lockfile_bytes collision_graph) \<in> set (fs_ops w')"
    using i by blast
  have b: "Map_keys collision_graph = [''pkg-c'', ''metadata:pkg-c'']" by code_simp
  have c: "Map_keys (lf_packages (generateLockfile collision_graph)) =
     [''node_modules/pkg-c'', ''node_modules/metadata:pkg-c'']" by code_simp
  have d: "lf_dependencies (generateLockfile collision_graph) =
     [(''pkg-c'', Some ''1.0.0''), (''metadata:pkg-c'', None)]" by code_simp
  have e: "lockfile_bytes collision_graph = collision_lockfile_text" by code_simp
  show ?thesis using a b c d e by blast
qed

text \<open>
  C9. When the determined package list is empty (a manifest exists, or an explicit empty
  list is given), \<open>install\<close> returns \<open>{success: true, installed: []}\<close> at once: the state
  afterwards differs from the state before only in the two clock readings, so no
  directory was created, no file written, nothing fetched and nothing cached.
\<close>

theorem install_empty_list_no_writes:
  assumes "\<not> no_manifest E options" and "determined_packages E options = []"
  shows "install E options w =
           (Inr \<lparr>success = True, installed = [],
                 duration = clock E (Suc (ticks w)) - clock E (ticks w),
                 error = None, result_metadata = None\<rparr>,
            w\<lparr>ticks := Suc (Suc (ticks w))\<rparr>)
         \<and> fs_ops (snd (install E options w)) = fs_ops w"
  using install_empty[OF assms, of w] by simp

theorem install_empty_list_no_writes_witness:
  "\<not> no_manifest empty_manifest_env no_options \<and>
   determined_packages empty_manifest_env no_options = [] \<and>
   install empty_manifest_env no_options fresh =
     (Inr \<lparr>success = True, installed = [], duration = 1, error = None,
           result_metadata = None\<rparr>,
      \<lparr>cache = [], ticks = 2, fetched = [], fs_ops = []\<rparr>) \<and>
   fs_ops (snd (install empty_manifest_env no_options fresh)) = []"
proof -
  have a: "\<not> no_manifest empty_manifest_env no_options"
    by (simp add: no_manifest_def no_options_def read_package_json_def empty_manifest_env_def
          env_of_def or_else_def)
  have b: "determined_packages empty_manifest_env no_options = []"
    by (simp add: determined_packages_def no_options_def read_package_json_def
          empty_manifest_env_def env_of_def or_else_def extractDependencies_def)
  show ?thesis
    using install_empty_list_no_writes[OF a b, of fresh] a b
    by (simp add: empty_manifest_env_def env_of_def fresh_def numeral_2_eq_2)
qed

text \<open>
  C10. For every graph that \<open>resolveDependencies\<close> returns, the lockfile has the name
  \<open>atiq-generated-lock\<close>, the version \<open>1.0.0\<close> and the lockfile version 1, and each
  entry of its \<open>packages\<close> has the integrity \<open>sha512-unknown\<close>: no package object of the
  resolver or of its cache has an \<open>integrity\<close> field.
\<close>

theorem lockfile_constants:
  assumes "cache_wf w"
  shows "lf_name (generateLockfile (fst (resolveDependencies E packages w))) = ''atiq-generated-lock'' \<and>
         lf_version (generateLockfile (fst (resolveDependencies E packages w))) = ''1.0.0'' \<and>
         lf_lockfileVersion (generateLockfile (fst (resolveDependencies E packages w))) = 1 \<and>
         (\<forall>entry \<in> set (lf_packages (generateLockfile (fst (resolveDependencies E packages w)))).
            le_integrity (snd entry) = ''sha512-unknown'')"
proof -
  have "graph_wf (fst (resolveDependencies E packages w))"
    using resolveDependencies_wf(1)[OF assms] .
  then have "list_all (\<lambda>kv. le_integrity (snd kv) = ''sha512-unknown'')
           (lf_packages (generateLockfile (fst (resolveDependencies E packages w))))"
    unfolding generateLockfile_def by (rule lockfile_loop_integrity) simp
  then show ?thesis
    by (simp add: generateLockfile_def lockfile_loop_fields list_all_iff)
qed

lemma chain_lock_packages:
  "map (\<lambda>kv. (fst kv, le_integrity (snd kv)))
     (lf_packages (generateLockfile (fst (resolveDependencies chain_env [''pkg-a''] fresh)))) =
   [(''node_modules/pkg-a'', ''sha512-unknown''), (''node_modules/pkg-b'', ''sha512-unknown''),
    (''node_modules/pkg-c'', ''sha512-unknown'')]"
  by code_simp

theorem lockfile_constants_witness:
  "cache_wf fresh \<and>
   lf_name (generateLockfile (fst (resolveDependencies chain_env [''pkg-a''] fresh))) = ''atiq-generated-lock'' \<and>
   lf_version (generateLockfile (fst (resolveDependencies chain_env [''pkg-a''] fresh))) = ''1.0.0'' \<and>
   lf_lockfileVersion (generateLockfile (fst (resolveDependencies chain_env [''pkg-a''] fresh))) = 1 \<and>
   map (\<lambda>kv. (fst kv, le_integrity (snd kv)))
     (lf_packages (generateLockfile (fst (resolveDependencies chain_env [''pkg-a''] fresh)))) =
   [(''node_modules/pkg-a'', ''sha512-unknown''), (''node_modules/pkg-b'', ''sha512-unknown''),
    (''node_modules/pkg-c'', ''sha512-unknown'')]"
  using lockfile_constants[OF cache_wf_fresh, of chain_env "[''pkg-a'']"] cache_wf_fresh
    chain_lock_packages
  by simp

end
